theory Spec2Isabelle
  imports Main "HOL-Library.List_Lexorder" "HOL-Library.Sublist" "HOL-Library.Multiset"
begin

section \<open>Python strings\<close>

text \<open>
  A Python \<open>str\<close> is a sequence of Unicode code points, so a string is a list of
  naturals (\<open>ord\<close> of each character) and not a list of bytes: the en-dash of the
  page-range rule is the one code point 8211. \<open>S\<close> reads an ASCII literal.
  Strings are compared as Python compares them, lexicographically by code point.
\<close>

type_synonym cp = nat
type_synonym str = "cp list"

definition S :: "string \<Rightarrow> str" where
  "S cs = map of_char cs"

text \<open>\<open>str.isspace\<close> and the class \<open>\s\<close> of \<open>re\<close> on a \<open>str\<close> pattern: the
  Unicode whitespace characters (a finite table).\<close>

definition isspace :: "cp \<Rightarrow> bool" where
  "isspace c \<longleftrightarrow>
     (9 \<le> c \<and> c \<le> 13) \<or> (28 \<le> c \<and> c \<le> 32) \<or> c = 133 \<or> c = 160 \<or> c = 5760 \<or>
     (8192 \<le> c \<and> c \<le> 8202) \<or> c = 8232 \<or> c = 8233 \<or> c = 8239 \<or> c = 8287 \<or> c = 12288"

text \<open>\<open>s.replace(old, new)\<close>: the occurrences of \<open>old\<close> are found from the left and
  do not overlap; an empty \<open>old\<close> matches before every character and at the end.\<close>

function replace :: "str \<Rightarrow> str \<Rightarrow> str \<Rightarrow> str" where
  "replace [] old new = (if old = [] then new else [])"
| "replace (c # cs) old new =
     (if old = [] then new @ c # replace cs old new
      else if prefix old (c # cs) then new @ replace (drop (length old) (c # cs)) old new
      else c # replace cs old new)"
  by pat_completeness auto
termination
  by (relation "measure (\<lambda>(s, old, new). length s)") auto

text \<open>\<open>s.split(sep)\<close> for a separator of one character (empty tokens are kept) and
  \<open>sep.join(xs)\<close>.\<close>

fun str_split :: "str \<Rightarrow> cp \<Rightarrow> str list" where
  "str_split [] sep = [[]]"
| "str_split (c # cs) sep =
     (if c = sep then [] # str_split cs sep
      else (c # hd (str_split cs sep)) # tl (str_split cs sep))"

fun join :: "str \<Rightarrow> str list \<Rightarrow> str" where
  "join sep [] = []"
| "join sep [x] = x"
| "join sep (x # y # ys) = x @ sep @ join sep (y # ys)"

subsection \<open>The regular expressions of the script\<close>

text \<open>\<open>re.sub("\n+", " ", s)\<close>: every maximal run of newlines becomes one space.\<close>

function re_sub_newlines :: "str \<Rightarrow> str" where
  "re_sub_newlines [] = []"
| "re_sub_newlines (c # cs) =
     (if c = 10 then 32 # re_sub_newlines (dropWhile (\<lambda>x. x = 10) cs)
      else c # re_sub_newlines cs)"
  by pat_completeness auto
termination
  by (relation "measure length") (auto simp: length_dropWhile_le less_Suc_eq_le)

text \<open>\<open>re.sub("{|}", "", s)\<close>: every brace is deleted.\<close>

definition re_sub_braces :: "str \<Rightarrow> str" where
  "re_sub_braces s = filter (\<lambda>c. c \<noteq> 123 \<and> c \<noteq> 125) s"

text \<open>
  \<open>re.sub(r"\s*[-E]+\s*", "-", s)\<close>, where \<open>E\<close> stands for the en-dash: the class
  holds the hyphen (45) and the en-dash (8211). A match starts at the leftmost
  position from which whitespace leads to a dash (no dash is whitespace, so giving
  whitespace back never helps); it takes all the dashes and then all the whitespace
  that follow, and the scan goes on after it.
\<close>

definition isdash :: "cp \<Rightarrow> bool" where
  "isdash c \<longleftrightarrow> c = 45 \<or> c = 8211"

function re_sub_dashes :: "str \<Rightarrow> str" where
  "re_sub_dashes [] = []"
| "re_sub_dashes (c # cs) =
     (let r = dropWhile isspace (c # cs) in
      if r \<noteq> [] \<and> isdash (hd r)
      then 45 # re_sub_dashes (dropWhile isspace (dropWhile isdash r))
      else c # re_sub_dashes cs)"
  by pat_completeness auto
termination
proof (relation "measure length")
  show "wf (measure length)" by simp
next
  fix c :: cp and cs r
  assume r: "r = dropWhile isspace (c # cs)" and m: "r \<noteq> [] \<and> isdash (hd r)"
  have "length (dropWhile isdash r) < length r"
    using m by (cases r) (auto simp: length_dropWhile_le less_Suc_eq_le)
  moreover have "length (dropWhile isspace (dropWhile isdash r)) \<le> length (dropWhile isdash r)"
    by (rule length_dropWhile_le)
  moreover have "length r \<le> length (c # cs)"
    unfolding r by (rule length_dropWhile_le)
  ultimately show "(dropWhile isspace (dropWhile isdash r), c # cs) \<in> measure length"
    by simp
next
  fix c :: cp and cs r
  show "(cs, c # cs) \<in> measure length" by simp
qed

text \<open>\<open>re.sub("-", E, s)\<close> with the en-dash for \<open>E\<close>: every hyphen becomes an en-dash.\<close>

definition re_sub_hyphen :: "str \<Rightarrow> str" where
  "re_sub_hyphen s = map (\<lambda>c. if c = 45 then 8211 else c) s"

text \<open>\<open>re.search(r"shared\s?task", s)\<close> finds a match or not: \<open>re_match_sharedtask\<close>
  matches at the start of the string, the search tries every position.\<close>

definition re_match_sharedtask :: "str \<Rightarrow> bool" where
  "re_match_sharedtask s \<longleftrightarrow>
     prefix (S ''shared'') s \<and>
     (let r = drop 6 s in
      (r \<noteq> [] \<and> isspace (hd r) \<and> prefix (S ''task'') (tl r)) \<or> prefix (S ''task'') r)"

fun re_search_sharedtask :: "str \<Rightarrow> bool" where
  "re_search_sharedtask [] = re_match_sharedtask []"
| "re_search_sharedtask (c # cs) = (re_match_sharedtask (c # cs) \<or> re_search_sharedtask cs)"

section \<open>Records, errors and the library the script calls\<close>

text \<open>
  An entry is the dictionary \<open>bibtexparser\<close> delivers: field name to value, in
  insertion order, every value a \<open>str\<close> (so \<open>type(entry[key]) is str\<close> always
  holds); the entry type and the citation key are its fields \<open>ENTRYTYPE\<close> and
  \<open>ID\<close>. A database is the list of its entries.
\<close>

type_synonym entry = "(str \<times> str) list"

text \<open>
  The exceptions the script can end with. \<open>NotImplementedError\<close> carries its message
  and the exception that was being handled when it was raised (Python's implicit
  \<open>__context__\<close>), if any.
\<close>

datatype error =
    KeyError str
  | UnboundLocalError str
  | NotImplementedError str "error option"
  | ValueError
  | AssertionError
  | FileNotFoundError str

fun ebind :: "error + 'a \<Rightarrow> ('a \<Rightarrow> error + 'b) \<Rightarrow> error + 'b" where
  "ebind (Inl e) f = Inl e"
| "ebind (Inr x) f = f x"

definition getitem :: "entry \<Rightarrow> str \<Rightarrow> error + str" where
  "getitem entry key = (case map_of entry key of None \<Rightarrow> Inl (KeyError key) | Some v \<Rightarrow> Inr v)"

definition haskey :: "entry \<Rightarrow> str \<Rightarrow> bool" where
  "haskey entry key \<longleftrightarrow> map_of entry key \<noteq> None"

text \<open>
  What the script takes from Python and its libraries and this repository does not
  hold: the Unicode tables behind \<open>isupper\<close> (of one character) and \<open>lower\<close>, the
  parser \<open>bibtexparser.loads\<close>, the serialisers \<open>DataFrame.to_csv\<close> and
  \<open>BibTexWriter.write\<close>, and today's date as \<open>strftime\<close> prints it. Every function
  below that needs one of them takes the record, and every theorem holds for all of
  them unless it names \<open>ascii_env\<close>.
\<close>

record env =
  str_isupper :: "cp \<Rightarrow> bool"
  str_lower :: "str \<Rightarrow> str"
  bibtex_loads :: "str \<Rightarrow> entry list"
  df_to_csv :: "entry list \<Rightarrow> str"
  writer_write :: "entry list \<Rightarrow> str"
  today_strftime :: str

text \<open>
  An environment for concrete runs on ASCII text: the two Unicode tables restricted
  to ASCII, where they agree with Python's, the parser as a table \<open>parsed\<close> that
  holds, for each text the run hands to it, the entries that \<open>bibtexparser\<close> finds
  in that text (a text the table does not hold has no entries), and stand-ins for
  the two serialisers, which write the values of the fields one after the other.
\<close>

definition ascii_env :: "(str \<times> entry list) list \<Rightarrow> env" where
  "ascii_env parsed =
     \<lparr> str_isupper = (\<lambda>c. 65 \<le> c \<and> c \<le> 90),
       str_lower = map (\<lambda>c. if 65 \<le> c \<and> c \<le> 90 then c + 32 else c),
       bibtex_loads = (\<lambda>txt_list. case map_of parsed txt_list of Some db \<Rightarrow> db | None \<Rightarrow> []),
       df_to_csv = concat \<circ> map (concat \<circ> map snd),
       writer_write = concat \<circ> map (concat \<circ> map snd),
       today_strftime = S ''January 01, 2024'' \<rparr>"

text \<open>
  The world the script acts on: the file system (a text file, or a file whose bytes
  are not UTF-8 text, such as a PDF) and what has been printed.
\<close>

datatype fobj = Text str | Binary

datatype printed = PrintEntry entry | PrintPath str

record world =
  files :: "str \<Rightarrow> fobj option"
  stdout :: "printed list"

definition isfile :: "world \<Rightarrow> str \<Rightarrow> bool" where
  "isfile w p \<longleftrightarrow> files w p \<noteq> None"

definition print :: "printed \<Rightarrow> world \<Rightarrow> world" where
  "print x w = w\<lparr>stdout := stdout w @ [x]\<rparr>"

text \<open>\<open>open(p, 'wt')\<close> creates or empties the file; \<open>write\<close> appends to it.\<close>

definition open_wt :: "str \<Rightarrow> world \<Rightarrow> world" where
  "open_wt p w = w\<lparr>files := (files w)(p \<mapsto> Text [])\<rparr>"

definition fwrite :: "str \<Rightarrow> str \<Rightarrow> world \<Rightarrow> world" where
  "fwrite p s w =
     w\<lparr>files := (files w)(p \<mapsto> Text ((case files w p of Some (Text t) \<Rightarrow> t | _ \<Rightarrow> []) @ s))\<rparr>"

section \<open>The record normalizer: \<open>formatter\<close>\<close>

text \<open>The token rule of the title branch: a token with an uppercase character is
  wrapped in braces.\<close>

definition protect :: "env \<Rightarrow> str \<Rightarrow> str" where
  "protect E r = (if list_ex (str_isupper E) r then S ''{'' @ r @ S ''}'' else r)"

text \<open>The body of the loop of \<open>formatter\<close> for one key and its value.\<close>

definition formatter_key :: "env \<Rightarrow> str \<Rightarrow> str \<Rightarrow> str" where
  "formatter_key E key v =
     (let v1 = re_sub_newlines v;
          v2 = (if key = S ''title'' \<or> key = S ''booktitle''
                then join (S '' '') (map (protect E) (str_split (re_sub_braces v1) 32))
                else v1);
          v3 = (if key = S ''pages'' then re_sub_hyphen (re_sub_dashes v2) else v2)
      in v3)"

definition formatter :: "env \<Rightarrow> entry \<Rightarrow> entry" where
  "formatter E entry = map (\<lambda>(key, v). (key, formatter_key E key v)) entry"

section \<open>The citation renderer\<close>

definition special_default :: "str list" where
  "special_default = [S ''Heinrich, Philipp'', S ''Heinrich, P.'']"

definition author2html :: "str \<Rightarrow> str list \<Rightarrow> str" where
  "author2html author special =
     foldl (\<lambda>author s. replace author s (S ''<u>'' @ s @ S ''</u>''))
       (replace author (S '' and '') (S ''; '')) special"

definition article2html :: "entry \<Rightarrow> error + str" where
  "article2html entry =
     ebind (getitem entry (S ''volume'')) (\<lambda>volume.
     ebind (if haskey entry (S ''number'')
            then ebind (getitem entry (S ''number'')) (\<lambda>number.
                   Inr (S ''<b>'' @ volume @ S ''</b>'' @ S ''('' @ number @ S '')''))
            else Inr (S ''<b>'' @ volume @ S ''</b>'')) (\<lambda>volume_number.
     ebind (getitem entry (S ''author'')) (\<lambda>author.
     ebind (getitem entry (S ''year'')) (\<lambda>year.
     ebind (getitem entry (S ''title'')) (\<lambda>title.
     ebind (getitem entry (S ''journal'')) (\<lambda>journal.
     ebind (getitem entry (S ''pages'')) (\<lambda>pages.
     Inr (join (S '' '')
       [author2html author special_default,
        S ''('' @ year @ S '').'',
        S ''<b>'' @ title @ S ''</b>.'',
        S ''<i>'' @ journal @ S ''</i>'',
        volume_number @ S '':'',
        pages @ S ''.'']))))))))"

text \<open>In \<open>book2html\<close> the variable \<open>author\<close> is bound only when the entry has an
  author or an editor; reading it unbound is the first thing the final expression
  does.\<close>

definition book2html :: "entry \<Rightarrow> error + str" where
  "book2html entry =
     ebind (if haskey entry (S ''author'')
            then ebind (getitem entry (S ''author'')) (\<lambda>a. Inr (author2html a special_default))
            else if haskey entry (S ''editor'')
            then ebind (getitem entry (S ''editor'')) (\<lambda>a. Inr (author2html a special_default))
            else Inl (UnboundLocalError (S ''author''))) (\<lambda>author.
     ebind (getitem entry (S ''year'')) (\<lambda>year.
     ebind (getitem entry (S ''title'')) (\<lambda>title.
     ebind (getitem entry (S ''address'')) (\<lambda>address.
     ebind (getitem entry (S ''publisher'')) (\<lambda>publisher.
     Inr (join (S '' '')
       [author,
        S ''('' @ year @ S '').'',
        S ''<b>'' @ title @ S ''</b>.'',
        address @ S '':'',
        publisher @ S ''.'']))))))"

definition inproceedings2html :: "entry \<Rightarrow> error + str" where
  "inproceedings2html entry =
     ebind (getitem entry (S ''author'')) (\<lambda>author.
     ebind (getitem entry (S ''year'')) (\<lambda>year.
     ebind (getitem entry (S ''title'')) (\<lambda>title.
     ebind (getitem entry (S ''booktitle'')) (\<lambda>booktitle.
     ebind (getitem entry (S ''pages'')) (\<lambda>pages.
     ebind (getitem entry (S ''address'')) (\<lambda>address.
     Inr (join (S '' '')
       [author2html author special_default,
        S ''('' @ year @ S '').'',
        S ''<b>'' @ title @ S ''</b>.'',
        S ''In <i>'' @ booktitle @ S ''</i>,'',
        S ''pages '' @ pages @ S '','',
        address @ S ''.''])))))))"

definition incollection2html :: "entry \<Rightarrow> error + str" where
  "incollection2html entry =
     ebind (getitem entry (S ''author'')) (\<lambda>author.
     ebind (getitem entry (S ''year'')) (\<lambda>year.
     ebind (getitem entry (S ''title'')) (\<lambda>title.
     ebind (getitem entry (S ''booktitle'')) (\<lambda>booktitle.
     ebind (getitem entry (S ''editor'')) (\<lambda>editor.
     ebind (getitem entry (S ''pages'')) (\<lambda>pages.
     ebind (getitem entry (S ''address'')) (\<lambda>address.
     ebind (getitem entry (S ''publisher'')) (\<lambda>publisher.
     Inr (join (S '' '')
       [author2html author special_default,
        S ''('' @ year @ S '').'',
        S ''<b>'' @ title @ S ''</b>.'',
        S ''In <i>'' @ booktitle @ S ''</i>,'',
        S ''edited by '' @ author2html editor special_default @ S '','',
        S ''pages '' @ pages @ S '','',
        address @ S '':'',
        publisher @ S ''.''])))))))))"

definition misc2html :: "entry \<Rightarrow> error + str" where
  "misc2html entry =
     ebind (getitem entry (S ''author'')) (\<lambda>author.
     ebind (getitem entry (S ''year'')) (\<lambda>year.
     ebind (getitem entry (S ''title'')) (\<lambda>title.
     ebind (getitem entry (S ''howpublished'')) (\<lambda>howpublished.
     Inr (join (S '' '')
       [author2html author special_default,
        S ''('' @ year @ S '').'',
        S ''<b>'' @ title @ S ''</b>.'',
        S ''<i>'' @ howpublished @ S ''</i>.''])))))"

text \<open>The \<open>try\<close> block of \<open>bibtex2html\<close>: the renderer is chosen by the entry type.\<close>

definition bibtex2html_try :: "entry \<Rightarrow> error + str" where
  "bibtex2html_try entry =
     ebind (getitem entry (S ''ENTRYTYPE'')) (\<lambda>t.
       if t = S ''article'' then article2html entry
       else if t = S ''book'' \<or> t = S ''proceedings'' then book2html entry
       else if t = S ''inproceedings'' then inproceedings2html entry
       else if t = S ''incollection'' then incollection2html entry
       else if t = S ''misc'' then misc2html entry
       else Inl (NotImplementedError (S ''ENTRYTYPE '' @ t @ S '' not supported'') None))"

text \<open>The dictionary \<open>res\<close> of asset paths, in the order the loop reads it.\<close>

definition res :: "str \<Rightarrow> str \<Rightarrow> (str \<times> str) list" where
  "res pdf_dir ident =
     [(S ''abstract'', pdf_dir @ ident @ S ''_abstract.pdf''),
      (S ''pdf'', pdf_dir @ ident @ S ''.pdf''),
      (S ''slides'', pdf_dir @ ident @ S ''_slides.pdf''),
      (S ''poster'', pdf_dir @ ident @ S ''_poster.pdf'')]"

text \<open>The last four lines of \<open>bibtex2html\<close>; the backslash is the code point 92.\<close>

definition unescape :: "str \<Rightarrow> str" where
  "unescape out =
     replace (replace (replace (replace out (S ''``'') (S ''&ldquo;''))
       [39, 39] (S ''&rdquo;'')) [92, 95] (S ''_'')) [92, 38] (S ''&'')"

text \<open>
  \<open>bibtex2html\<close>: a \<open>KeyError\<close> of the \<open>try\<close> block is caught, the entry is printed and
  \<open>NotImplementedError("can't deal with this")\<close> is raised while the \<open>KeyError\<close> is being
  handled; any other exception of the block passes. The braces are removed from the
  citation, then the links are appended (the lookup of \<open>ID\<close> is outside the \<open>try\<close>),
  then the whole string is unescaped.
\<close>

definition bibtex2html :: "entry \<Rightarrow> str \<Rightarrow> world \<Rightarrow> (error + str) \<times> world" where
  \<open>bibtex2html entry pdf_dir w =
     (case bibtex2html_try entry of
        Inl (KeyError k) \<Rightarrow>
          (Inl (NotImplementedError (S ''can'' @ [39] @ S ''t deal with this'') (Some (KeyError k))),
           print (PrintEntry entry) w)
      | Inl e \<Rightarrow> (Inl e, w)
      | Inr out0 \<Rightarrow>
          (ebind (getitem entry (S ''ID'')) (\<lambda>ident.
             let out1 = re_sub_braces out0 @ S '' ['';
                 out2 = out1 @ S ''<a href="'' @ join (S ''/'') [S ''bib'', ident @ S ''.bib'']
                          @ S ''">bib</a>'';
                 out3 = (if haskey entry (S ''url'')
                         then out2 @ S '', <a href="'' @ the (map_of entry (S ''url''))
                                @ S ''">web</a>''
                         else out2);
                 out4 = foldl (\<lambda>out (key, path).
                                 if isfile w path
                                 then out @ S '', <a href="'' @ path @ S ''">'' @ key @ S ''</a>''
                                 else out)
                          out3 (res pdf_dir ident);
                 out5 = out4 @ S '']'' @ [10]
             in Inr (unescape out5)), w))\<close>

section \<open>Loading: \<open>read_many_bibs\<close>\<close>

text \<open>The first loop: the text of every file, each followed by a newline; a file that
  is not UTF-8 text is printed and skipped, a missing one ends the run.\<close>

fun read_loop :: "str list \<Rightarrow> str \<Rightarrow> world \<Rightarrow> (error + str) \<times> world" where
  "read_loop [] txt_list w = (Inr txt_list, w)"
| "read_loop (p # ps) txt_list w =
     (case files w p of
        None \<Rightarrow> (Inl (FileNotFoundError p), w)
      | Some (Text t) \<Rightarrow> read_loop ps (txt_list @ t @ [10]) w
      | Some Binary \<Rightarrow> read_loop ps txt_list (print (PrintPath p) w))"

text \<open>The second loop: comments are not appended, every other entry is formatted.\<close>

fun transform_loop :: "env \<Rightarrow> entry list \<Rightarrow> error + entry list" where
  "transform_loop E [] = Inr []"
| "transform_loop E (entry # db) =
     ebind (getitem entry (S ''ENTRYTYPE'')) (\<lambda>t.
     ebind (transform_loop E db) (\<lambda>entries.
     Inr (if t \<noteq> S ''comment'' then formatter E entry # entries else entries)))"

definition read_many_bibs :: "env \<Rightarrow> str list \<Rightarrow> bool \<Rightarrow> world \<Rightarrow> (error + entry list) \<times> world" where
  "read_many_bibs E paths_in consistencize w =
     (case read_loop (sort paths_in) [] w of
        (Inl e, w') \<Rightarrow> (Inl e, w')
      | (Inr txt_list, w') \<Rightarrow>
          (let db = bibtex_loads E txt_list in
           if length db \<noteq> length paths_in then (Inl AssertionError, w')
           else if consistencize then (transform_loop E db, w')
           else (Inr db, w')))"

section \<open>Classifying and ordering: \<open>order_db\<close>\<close>

text \<open>
  \<open>col\<close> is a \<open>defaultdict\<close> of databases: the keys in the order of their first use,
  each with the entries appended under it. Reading a key that is not there gives an
  empty database.
\<close>

type_synonym col = "(str \<times> entry list) list"

fun col_append :: "col \<Rightarrow> str \<Rightarrow> entry \<Rightarrow> col" where
  "col_append [] key entry = [(key, [entry])]"
| "col_append ((k, es) # col) key entry =
     (if k = key then (k, es @ [entry]) # col else (k, es) # col_append col key entry)"

definition col_get :: "col \<Rightarrow> str \<Rightarrow> entry list" where
  "col_get col key = (case map_of col key of None \<Rightarrow> [] | Some es \<Rightarrow> es)"

definition keys :: "(str \<times> 'a) list \<Rightarrow> str list" where
  "keys d = map fst d"

fun order_db_loop :: "env \<Rightarrow> entry list \<Rightarrow> str \<Rightarrow> col \<Rightarrow> error + col" where
  "order_db_loop E [] order col = Inr col"
| "order_db_loop E (entry # db) order col =
     ebind (if order = S ''ENTRYTYPE''
            then (if haskey entry (S ''note'')
                     \<and> re_search_sharedtask (str_lower E (the (map_of entry (S ''note''))))
                  then Inr (col_append col (S ''sharedtask'') entry)
                  else ebind (getitem entry (S ''ENTRYTYPE'')) (\<lambda>t. Inr (col_append col t entry)))
            else Inr col) (\<lambda>col.
     ebind (if order = S ''date''
            then ebind (if haskey entry (S ''date'') then getitem entry (S ''date'')
                        else getitem entry (S ''year'')) (\<lambda>date.
                   Inr (col_append col date entry))
            else Inr col) (\<lambda>col.
     order_db_loop E db order col))"

definition order_db :: "env \<Rightarrow> entry list \<Rightarrow> str \<Rightarrow> error + col" where
  "order_db E db order = order_db_loop E db order []"

section \<open>The driver: \<open>main\<close>\<close>

text \<open>\<open>sorted(keys, reverse=True)\<close>; the keys of a dictionary are distinct, so the
  descending order is the ascending one reversed.\<close>

definition sorted_reverse :: "str list \<Rightarrow> str list" where
  "sorted_reverse ks = rev (sort ks)"

definition types :: "(str \<times> str) list" where
  "types =
     [(S ''article'', S ''Journal Articles''),
      (S ''book'', S ''Edited Volumes''),
      (S ''proceedings'', S ''Edited Conference Proceedings''),
      (S ''inproceedings'', S ''Articles in Conference Proceedings''),
      (S ''incollection'', S ''Articles in Collections''),
      (S ''sharedtask'', S ''Shared Tasks''),
      (S ''misc'', S ''Talks and Presentations'')]"

text \<open>The loops that write the \<open>.bib\<close> file: one banner per category in ascending
  order of the keys, then the databases of that category by date, descending.\<close>

definition bib_dates :: "env \<Rightarrow> str \<Rightarrow> col \<Rightarrow> world \<Rightarrow> world" where
  "bib_dates E path_bib db_ordered_dates w =
     foldl (\<lambda>w key2. fwrite path_bib (writer_write E (col_get db_ordered_dates key2)) w)
       w (sorted_reverse (keys db_ordered_dates))"

fun bib_loop :: "env \<Rightarrow> str \<Rightarrow> col \<Rightarrow> str list \<Rightarrow> world \<Rightarrow> (error + unit) \<times> world" where
  "bib_loop E path_bib db_ordered [] w = (Inr (), w)"
| "bib_loop E path_bib db_ordered (key # ks) w =
     (let w1 = fwrite path_bib
                 (replicate 60 37 @ [10] @ S ''% '' @ key @ [10] @ replicate 60 37 @ [10]) w
      in case order_db E (col_get db_ordered key) (S ''date'') of
           Inl e \<Rightarrow> (Inl e, w1)
         | Inr db_ordered_dates \<Rightarrow>
             bib_loop E path_bib db_ordered ks (bib_dates E path_bib db_ordered_dates w1))"

text \<open>The loops that write the \<open>.html\<close> file. An item is rendered before it is
  written, so an entry that cannot be rendered leaves the file as it was before it.\<close>

fun html_items :: "entry list \<Rightarrow> str \<Rightarrow> str \<Rightarrow> world \<Rightarrow> (error + unit) \<times> world" where
  "html_items [] pdf_dir path_html w = (Inr (), w)"
| "html_items (bib # bibs) pdf_dir path_html w =
     (case bibtex2html bib pdf_dir w of
        (Inl e, w') \<Rightarrow> (Inl e, w')
      | (Inr item, w') \<Rightarrow> html_items bibs pdf_dir path_html (fwrite path_html (S ''<li> '' @ item) w'))"

fun html_dates :: "col \<Rightarrow> str list \<Rightarrow> str \<Rightarrow> str \<Rightarrow> world \<Rightarrow> (error + unit) \<times> world" where
  "html_dates db_ordered_dates [] pdf_dir path_html w = (Inr (), w)"
| "html_dates db_ordered_dates (key2 # ks) pdf_dir path_html w =
     (case html_items (col_get db_ordered_dates key2) pdf_dir path_html w of
        (Inl e, w') \<Rightarrow> (Inl e, w')
      | (Inr u, w') \<Rightarrow> html_dates db_ordered_dates ks pdf_dir path_html w')"

fun html_types :: "env \<Rightarrow> col \<Rightarrow> (str \<times> str) list \<Rightarrow> str \<Rightarrow> str \<Rightarrow> world \<Rightarrow> (error + unit) \<times> world" where
  "html_types E db_ordered [] pdf_dir path_html w = (Inr (), w)"
| "html_types E db_ordered ((key, label) # ts) pdf_dir path_html w =
     (let w1 = fwrite path_html (S ''<h3>'' @ label @ S ''</h3>'' @ [10]) w
      in case order_db E (col_get db_ordered key) (S ''date'') of
           Inl e \<Rightarrow> (Inl e, w1)
         | Inr db_ordered_dates \<Rightarrow>
             (case html_dates db_ordered_dates (sorted_reverse (keys db_ordered_dates))
                     pdf_dir path_html (fwrite path_html (S ''<ul>'' @ [10]) w1) of
                (Inl e, w2) \<Rightarrow> (Inl e, w2)
              | (Inr u, w2) \<Rightarrow>
                  html_types E db_ordered ts pdf_dir path_html
                    (fwrite path_html (S ''</ul>'' @ [10]) w2)))"

text \<open>
  \<open>main\<close>: the \<open>.tsv\<close> file is written first, then the \<open>.bib\<close> file is opened and
  written, then the keys of the classification are checked against \<open>types\<close>, then the
  \<open>.html\<close> file is opened and written.
\<close>

definition main :: "env \<Rightarrow> str list \<Rightarrow> str \<Rightarrow> str \<Rightarrow> str \<Rightarrow> str \<Rightarrow> world \<Rightarrow> (error + unit) \<times> world" where
  "main E paths_in pdf_dir path_tsv path_bib path_html w =
     (case read_many_bibs E paths_in True w of
        (Inl e, w1) \<Rightarrow> (Inl e, w1)
      | (Inr db, w1) \<Rightarrow>
          (let w2 = fwrite path_tsv (df_to_csv E db) (open_wt path_tsv w1) in
           case order_db E db (S ''ENTRYTYPE'') of
             Inl e \<Rightarrow> (Inl e, w2)
           | Inr db_ordered \<Rightarrow>
               (case bib_loop E path_bib db_ordered (sort (keys db_ordered)) (open_wt path_bib w2) of
                  (Inl e, w3) \<Rightarrow> (Inl e, w3)
                | (Inr u, w3) \<Rightarrow>
                    if card (set (keys db_ordered) \<union> set (keys types)) \<noteq> length (keys types)
                    then (Inl ValueError, w3)
                    else
                      (case html_types E db_ordered types pdf_dir path_html
                              (fwrite path_html (S ''<html>'' @ [10]) (open_wt path_html w3)) of
                         (Inl e, w4) \<Rightarrow> (Inl e, w4)
                       | (Inr u, w4) \<Rightarrow>
                           (Inr (),
                            fwrite path_html (S ''</html>'')
                              (fwrite path_html (S ''</footer>'' @ [10])
                                (fwrite path_html
                                   (S ''last update: '' @ today_strftime E @ [10])
                                   (fwrite path_html (S ''<footer>'' @ [10]) w4))))))))"

section \<open>Example inputs\<close>

text \<open>Two input files, one holding an article and one an entry of type \<open>comment\<close>
  (\<open>@ comment\<close>, which the parser reads as an entry, where \<open>@comment\<close> would be a
  comment of the file and no entry), and what the parser finds in the text that
  \<open>read_many_bibs\<close> makes of the two files.\<close>

definition ex_article :: entry where
  "ex_article =
     [(S ''ENTRYTYPE'', S ''article''), (S ''ID'', S ''smith2020''), (S ''year'', S ''2020'')]"

definition ex_comment :: entry where
  "ex_comment =
     [(S ''ENTRYTYPE'', S ''comment''), (S ''ID'', S ''c1''), (S ''year'', S ''2020'')]"

definition ex_world :: world where
  "ex_world =
     \<lparr>files = [S ''bib/a.bib'' \<mapsto> Text (S ''@article{smith2020, year = 2020}''),
               S ''bib/b.bib'' \<mapsto> Text (S ''@ comment{c1, year = 2020}'')],
      stdout = []\<rparr>"

definition ex_parsed :: "(str \<times> entry list) list" where
  "ex_parsed =
     [(S ''@article{smith2020, year = 2020}'' @ [10] @ S ''@ comment{c1, year = 2020}'' @ [10],
       [ex_article, ex_comment])]"




section \<open>The grouping keys in the words of the specification\<close>

text \<open>The date key of a record: its \<open>date\<close> field if present, else its \<open>year\<close> field.\<close>

definition date_key :: "entry \<Rightarrow> str option" where
  "date_key e = (case map_of e (S ''date'') of Some d \<Rightarrow> Some d | None \<Rightarrow> map_of e (S ''year''))"

text \<open>A note names a shared task when it holds \<open>shared\<close>, then at most one whitespace
  character, then \<open>task\<close>.\<close>

definition shared_task_note :: "str \<Rightarrow> bool" where
  "shared_task_note s \<longleftrightarrow>
     sublist (S ''sharedtask'') s \<or>
     (\<exists>c\<in>set s. isspace c \<and> sublist (S ''shared'' @ [c] @ S ''task'') s)"

text \<open>The category of a record: \<open>sharedtask\<close> when its note, in lower case, names a
  shared task, else its entry type.\<close>

definition category :: "env \<Rightarrow> entry \<Rightarrow> str option" where
  "category E e =
     (case map_of e (S ''note'') of
        Some n \<Rightarrow> if shared_task_note (str_lower E n) then Some (S ''sharedtask'')
                  else map_of e (S ''ENTRYTYPE'')
      | None \<Rightarrow> map_of e (S ''ENTRYTYPE''))"

text \<open>Filing every entry under its key, for entries that all have one.\<close>

fun group_by_key :: "(entry \<Rightarrow> str option) \<Rightarrow> entry list \<Rightarrow> col \<Rightarrow> col" where
  "group_by_key kf [] col = col"
| "group_by_key kf (e # db) col = group_by_key kf db (col_append col (the (kf e)) e)"

text \<open>Three records for the ordering by date: one with a \<open>date\<close>, one with a \<open>year\<close>
  only, one with neither.\<close>

definition ex_dated :: entry where
  "ex_dated =
     [(S ''ENTRYTYPE'', S ''article''), (S ''ID'', S ''a2021''), (S ''year'', S ''2020''),
      (S ''date'', S ''2021-03'')]"

definition ex_year :: entry where
  "ex_year = [(S ''ENTRYTYPE'', S ''article''), (S ''ID'', S ''b2020''), (S ''year'', S ''2020'')]"

definition ex_undated :: entry where
  "ex_undated = [(S ''ENTRYTYPE'', S ''misc''), (S ''ID'', S ''c'')]"

text \<open>Two input files holding \<open>ex_year\<close> and \<open>ex_dated\<close>, and what the parser finds in
  the text that \<open>read_many_bibs\<close> makes of them.\<close>

definition ex_world2 :: world where
  "ex_world2 =
     \<lparr>files = [S ''bib/a.bib'' \<mapsto> Text (S ''@article{b2020, year = 2020}''),
               S ''bib/b.bib'' \<mapsto> Text (S ''@article{a2021, year = 2020, date = {2021-03}}'')],
      stdout = []\<rparr>"

definition ex_parsed2 :: "(str \<times> entry list) list" where
  "ex_parsed2 =
     [(S ''@article{b2020, year = 2020}'' @ [10]
         @ S ''@article{a2021, year = 2020, date = {2021-03}}'' @ [10],
       [ex_year, ex_dated])]"

text \<open>Two conference papers with a note: \<open>SharedTask results\<close> and \<open>shared-task\<close>.\<close>

definition ex_shared :: entry where
  "ex_shared =
     [(S ''ENTRYTYPE'', S ''inproceedings''), (S ''ID'', S ''st2018''),
      (S ''note'', S ''SharedTask results'')]"

definition ex_hyphen :: entry where
  "ex_hyphen =
     [(S ''ENTRYTYPE'', S ''inproceedings''), (S ''ID'', S ''st2019''),
      (S ''note'', S ''shared-task'')]"

section \<open>The renderer in the words of the specification\<close>

text \<open>The fields each renderer looks up without a test, in the order in which it
  looks them up (\<open>book2html\<close> first takes the author or the editor).\<close>

definition required_fields :: "str \<Rightarrow> str list" where
  "required_fields t =
     (if t = S ''article''
      then [S ''volume'', S ''author'', S ''year'', S ''title'', S ''journal'', S ''pages'']
      else if t = S ''book'' \<or> t = S ''proceedings''
      then [S ''year'', S ''title'', S ''address'', S ''publisher'']
      else if t = S ''inproceedings''
      then [S ''author'', S ''year'', S ''title'', S ''booktitle'', S ''pages'', S ''address'']
      else if t = S ''incollection''
      then [S ''author'', S ''year'', S ''title'', S ''booktitle'', S ''editor'', S ''pages'',
            S ''address'', S ''publisher'']
      else if t = S ''misc''
      then [S ''author'', S ''year'', S ''title'', S ''howpublished'']
      else [])"

text \<open>A string holds a raw protection marker when it holds a brace.\<close>

definition has_brace :: "str \<Rightarrow> bool" where
  "has_brace s \<longleftrightarrow> 123 \<in> set s \<or> 125 \<in> set s"

text \<open>Two articles without \<open>pages\<close>, and a talk whose \<open>url\<close> holds braces.\<close>

definition ex_nopages :: "str \<Rightarrow> entry" where
  "ex_nopages ident =
     [(S ''ENTRYTYPE'', S ''article''), (S ''ID'', ident), (S ''author'', S ''Smith, J.''),
      (S ''year'', S ''2020''), (S ''title'', S ''{A} title''), (S ''journal'', S ''J''),
      (S ''volume'', S ''7'')]"

definition ex_talk :: entry where
  "ex_talk =
     [(S ''ENTRYTYPE'', S ''misc''), (S ''ID'', S ''k1''), (S ''author'', S ''Doe, J.''),
      (S ''year'', S ''2020''), (S ''title'', S ''{T}alk''), (S ''howpublished'', S ''H''),
      (S ''url'', S ''http://x.org/{a}'')]"

definition ex_nofiles :: world where
  "ex_nofiles = \<lparr>files = Map.empty, stdout = []\<rparr>"

definition ex_book :: entry where
  "ex_book =
     [(S ''ENTRYTYPE'', S ''book''), (S ''ID'', S ''b1''), (S ''editor'', S ''Doe, J.''),
      (S ''year'', S ''2019''), (S ''title'', S ''{B}ook''), (S ''address'', S ''Berlin'')]"

section \<open>Page ranges in the words of the specification\<close>

text \<open>A string has a dash gap when it holds two dashes (hyphen or en-dash) with
  whitespace, and nothing but whitespace, between them.\<close>

fun dash_gap :: "str \<Rightarrow> bool" where
  "dash_gap [] = False"
| "dash_gap (c # cs) =
     ((isdash c \<and> cs \<noteq> [] \<and> isspace (hd cs) \<and>
       (let r = dropWhile isspace cs in r \<noteq> [] \<and> isdash (hd r)))
      \<or> dash_gap cs)"

text \<open>A value splits at its first stretch of dashes into the text \<open>a\<close> before
  it, which holds no dash and does not end in whitespace, the whitespace \<open>ws1\<close>, the
  adjacent dashes \<open>ds\<close> (at least one), the whitespace \<open>ws2\<close>, and the rest, which
  does not start with whitespace, nor with a dash unless whitespace separates it from
  \<open>ds\<close>.\<close>

definition dash_stretch :: "str \<Rightarrow> str \<Rightarrow> str \<Rightarrow> str \<Rightarrow> str \<Rightarrow> bool" where
  "dash_stretch a ws1 ds ws2 rest \<longleftrightarrow>
     list_all (\<lambda>c. \<not> isdash c) a \<and> (a = [] \<or> \<not> isspace (last a)) \<and>
     list_all isspace ws1 \<and> ds \<noteq> [] \<and> list_all isdash ds \<and> list_all isspace ws2 \<and>
     (rest = [] \<or> (\<not> isspace (hd rest) \<and> (ws2 = [] \<longrightarrow> \<not> isdash (hd rest))))"

text \<open>A record with a title and a page range, and one whose page range has a dash gap.\<close>

definition ex_paged :: entry where
  "ex_paged =
     [(S ''ENTRYTYPE'', S ''article''), (S ''ID'', S ''p1''),
      (S ''title'', S ''A study of {BibTeX} files''), (S ''pages'', S ''12 - 34'')]"

definition ex_gap :: entry where
  "ex_gap = [(S ''ENTRYTYPE'', S ''article''), (S ''ID'', S ''p2''), (S ''pages'', S ''1 - - 2'')]"

section \<open>Basic facts\<close>

lemma S_Nil: "S [] = []" and S_Cons: "S (c # cs) = of_char c # S cs"
  by (simp_all add: S_def)

lemma keys_simps: "keys [] = []" "keys ((k, v) # d) = k # keys d"
  by (simp_all add: keys_def)

lemma files_print [simp]: "files (print x w) = files w"
  by (simp add: print_def)

lemma files_open_wt [simp]: "files (open_wt p w) = (files w)(p \<mapsto> Text [])"
  by (simp add: open_wt_def)

lemma files_fwrite_other [simp]: "q \<noteq> p \<Longrightarrow> files (fwrite p s w) q = files w q"
  by (simp add: fwrite_def)

lemma files_fwrite_same [simp]:
  "files (fwrite p s w) p = Some (Text ((case files w p of Some (Text t) \<Rightarrow> t | _ \<Rightarrow> []) @ s))"
  by (simp add: fwrite_def)

lemma files_fwrite_fresh:
  "files w p = Some (Text t) \<Longrightarrow> files (fwrite p s w) p = Some (Text (t @ s))"
  by (simp add: fwrite_def)



section \<open>Loading and the count of records\<close>

lemma transform_loop_Inr:
  "transform_loop E db = Inr entries \<Longrightarrow>
   entries = map (formatter E) (filter (\<lambda>e. map_of e (S ''ENTRYTYPE'') \<noteq> Some (S ''comment'')) db)"
proof (induction db arbitrary: entries)
  case Nil
  then show ?case by simp
next
  case (Cons e db)
  from Cons.prems obtain t where t: "map_of e (S ''ENTRYTYPE'') = Some t"
    by (auto simp: getitem_def split: option.splits)
  from Cons.prems t obtain r where r: "transform_loop E db = Inr r"
    by (cases "transform_loop E db") (auto simp: getitem_def)
  from Cons.IH [OF r] Cons.prems t r show ?case
    by (auto simp: getitem_def)
qed

lemma length_filter_compl:
  "length (filter (\<lambda>x. \<not> P x) xs) = length xs - length (filter P xs)"
  using sum_length_filter_compl [of P xs] by linarith

lemma ex_read:
  "read_many_bibs (ascii_env ex_parsed) [S ''bib/a.bib'', S ''bib/b.bib''] True ex_world
     = (Inr [ex_article], ex_world)"
  by (simp add: read_many_bibs_def ex_world_def ascii_env_def ex_parsed_def ex_article_def ex_comment_def
        getitem_def formatter_def formatter_key_def S_Nil S_Cons)

text \<open>
  C4 (amended). When \<open>read_many_bibs\<close> returns a database, the parser delivered as
  many entries as there are input files, comment entries included; the database is
  the formatted non-comment entries, so its length is the number of input files less
  the number of comment entries.
\<close>

theorem read_many_bibs_count:
  assumes "read_many_bibs E paths_in True w = (Inr db, w')"
  shows "\<exists>txt_list. read_loop (sort paths_in) [] w = (Inr txt_list, w') \<and>
           length (bibtex_loads E txt_list) = length paths_in \<and>
           db = map (formatter E)
                  (filter (\<lambda>e. map_of e (S ''ENTRYTYPE'') \<noteq> Some (S ''comment''))
                     (bibtex_loads E txt_list)) \<and>
           length db = length paths_in
             - length (filter (\<lambda>e. map_of e (S ''ENTRYTYPE'') = Some (S ''comment''))
                         (bibtex_loads E txt_list))"
proof -
  obtain r w1 where rl: "read_loop (sort paths_in) [] w = (r, w1)"
    by (cases "read_loop (sort paths_in) [] w")
  with assms obtain tx where r: "r = Inr tx"
    by (cases r) (auto simp: read_many_bibs_def)
  let ?p = "bibtex_loads E tx"
  from assms rl r have len: "length ?p = length paths_in"
    by (auto simp: read_many_bibs_def Let_def split: if_splits)
  from assms rl r len have tl: "transform_loop E ?p = Inr db" and w: "w1 = w'"
    by (auto simp: read_many_bibs_def Let_def)
  have db: "db = map (formatter E) (filter (\<lambda>e. map_of e (S ''ENTRYTYPE'') \<noteq> Some (S ''comment'')) ?p)"
    by (rule transform_loop_Inr [OF tl])
  have "length db = length ?p - length (filter (\<lambda>e. map_of e (S ''ENTRYTYPE'') = Some (S ''comment'')) ?p)"
    unfolding db using length_filter_compl [of "\<lambda>e. map_of e (S ''ENTRYTYPE'') = Some (S ''comment'')" ?p]
    by simp
  with rl r w len db show ?thesis by auto
qed

theorem read_many_bibs_count_witness:
  "read_many_bibs (ascii_env ex_parsed) [S ''bib/a.bib'', S ''bib/b.bib''] True ex_world
     = (Inr [ex_article], ex_world) \<and>
   (\<exists>txt_list. read_loop (sort [S ''bib/a.bib'', S ''bib/b.bib'']) [] ex_world = (Inr txt_list, ex_world) \<and>
      length (bibtex_loads (ascii_env ex_parsed) txt_list) = length [S ''bib/a.bib'', S ''bib/b.bib''] \<and>
      [ex_article] = map (formatter (ascii_env ex_parsed))
             (filter (\<lambda>e. map_of e (S ''ENTRYTYPE'') \<noteq> Some (S ''comment''))
                (bibtex_loads (ascii_env ex_parsed) txt_list)) \<and>
      length [ex_article] = length [S ''bib/a.bib'', S ''bib/b.bib'']
             - length (filter (\<lambda>e. map_of e (S ''ENTRYTYPE'') = Some (S ''comment''))
                         (bibtex_loads (ascii_env ex_parsed) txt_list)))"
  using ex_read read_many_bibs_count [OF ex_read] by (rule conjI)

text \<open>The claim as the specification states it fails: the two input files
  \<open>@article{smith2020, year = 2020}\<close> and \<open>@ comment{c1, year = 2020}\<close> are accepted,
  the parser delivering one entry for each, and one record remains.\<close>

theorem read_many_bibs_count_counterexample:
  "fst (read_many_bibs (ascii_env ex_parsed) [S ''bib/a.bib'', S ''bib/b.bib''] True ex_world)
     = Inr [ex_article] \<and>
   length [ex_article] \<noteq> length [S ''bib/a.bib'', S ''bib/b.bib'']"
  by (simp add: ex_read)

section \<open>The driver and an unknown category\<close>















section \<open>Classifying by category and by date\<close>

lemma col_get_append:
  "col_get (col_append col k e) k' = (if k' = k then col_get col k @ [e] else col_get col k')"
  by (induction col k e rule: col_append.induct) (auto simp: col_get_def)

lemma keys_col_append:
  "keys (col_append col k e) = (if k \<in> set (keys col) then keys col else keys col @ [k])"
  by (induction col k e rule: col_append.induct) (auto simp: keys_def)

lemma col_get_group:
  "\<forall>e\<in>set db. kf e \<noteq> None \<Longrightarrow>
   col_get (group_by_key kf db col) k = col_get col k @ filter (\<lambda>e. kf e = Some k) db"
  by (induction db arbitrary: col) (auto simp: col_get_append)

lemma keys_group_set:
  "\<forall>e\<in>set db. kf e \<noteq> None \<Longrightarrow>
   set (keys (group_by_key kf db col)) = set (keys col) \<union> {k. \<exists>e\<in>set db. kf e = Some k}"
  by (induction db arbitrary: col) (auto simp: keys_col_append)

lemma keys_group_distinct:
  "distinct (keys col) \<Longrightarrow> distinct (keys (group_by_key kf db col))"
  by (induction db arbitrary: col) (auto simp: keys_col_append)

lemma col_get_Nil: "col_get [] k = []"
  by (simp add: col_get_def)

lemma date_loop_ok:
  "\<forall>e\<in>set db. date_key e \<noteq> None \<Longrightarrow>
   order_db_loop E db (S ''date'') col = Inr (group_by_key date_key db col)"
proof (induction db arbitrary: col)
  case Nil
  then show ?case by simp
next
  case (Cons e db)
  have ne: "S ''date'' \<noteq> S ''ENTRYTYPE''" by (simp add: S_Nil S_Cons)
  from Cons.prems obtain k where k: "date_key e = Some k" by auto
  then have "(if haskey e (S ''date'') then getitem e (S ''date'') else getitem e (S ''year'')) = Inr k"
    by (auto simp: date_key_def haskey_def getitem_def split: option.splits)
  with Cons ne k show ?case by simp
qed

lemma date_loop_error:
  "\<exists>e\<in>set db. date_key e = None \<Longrightarrow>
   order_db_loop E db (S ''date'') col = Inl (KeyError (S ''year''))"
proof (induction db arbitrary: col)
  case Nil
  then show ?case by simp
next
  case (Cons e db)
  have ne: "S ''date'' \<noteq> S ''ENTRYTYPE''" by (simp add: S_Nil S_Cons)
  show ?case
  proof (cases "date_key e")
    case None
    then have "(if haskey e (S ''date'') then getitem e (S ''date'') else getitem e (S ''year''))
                 = Inl (KeyError (S ''year''))"
      by (auto simp: date_key_def haskey_def getitem_def split: option.splits)
    with ne show ?thesis by simp
  next
    case (Some k)
    then have "(if haskey e (S ''date'') then getitem e (S ''date'') else getitem e (S ''year'')) = Inr k"
      by (auto simp: date_key_def haskey_def getitem_def split: option.splits)
    moreover from Some Cons.prems have "\<exists>e\<in>set db. date_key e = None" by auto
    ultimately show ?thesis using Cons.IH ne by simp
  qed
qed

lemma html_items_append:
  "html_items (xs @ ys) pdf_dir path_html w =
     (case html_items xs pdf_dir path_html w of
        (Inl e, w') \<Rightarrow> (Inl e, w')
      | (Inr u, w') \<Rightarrow> html_items ys pdf_dir path_html w')"
  by (induction xs arbitrary: w) (auto split: prod.splits sum.splits)

lemma html_dates_concat:
  "html_dates col ks pdf_dir path_html w =
     html_items (concat (map (col_get col) ks)) pdf_dir path_html w"
  by (induction ks arbitrary: w) (auto simp: html_items_append split: prod.splits sum.splits)

lemma mset_concat_groups:
  "distinct ks \<Longrightarrow>
   mset (concat (map (\<lambda>k. filter (\<lambda>e. f e = Some k) xs) ks)) = mset (filter (\<lambda>e. f e \<in> Some ` set ks) xs)"
proof (induction ks)
  case Nil
  then show ?case by simp
next
  case (Cons k ks)
  have "mset (filter (\<lambda>e. f e = Some k) xs) + mset (filter (\<lambda>e. f e \<in> Some ` set ks) xs)
          = mset (filter (\<lambda>e. f e \<in> Some ` set (k # ks)) xs)"
    using Cons.prems by (induction xs) auto
  with Cons show ?case by simp
qed

lemma sorted_wrt_all:
  "(\<And>x y. x \<in> set xs \<Longrightarrow> y \<in> set xs \<Longrightarrow> P x y) \<Longrightarrow> sorted_wrt P xs"
  by (induction xs) auto

lemma sorted_wrt_groups:
  fixes ks :: "'k::linorder list"
  assumes "sorted_wrt (\<lambda>a b. b < a) ks"
    and "\<And>k x. k \<in> set ks \<Longrightarrow> x \<in> set (g k) \<Longrightarrow> h x = k"
  shows "sorted_wrt (\<lambda>a b. h b \<le> h a) (concat (map g ks))"
  using assms
proof (induction ks)
  case Nil
  then show ?case by simp
next
  case (Cons k ks)
  have hk: "\<And>x. x \<in> set (g k) \<Longrightarrow> h x = k"
    using Cons.prems(2) [of k] by simp
  have "sorted_wrt (\<lambda>a b. h b \<le> h a) (g k)"
    by (rule sorted_wrt_all) (simp add: hk)
  moreover have "sorted_wrt (\<lambda>a b. h b \<le> h a) (concat (map g ks))"
    using Cons by auto
  moreover have "\<forall>x\<in>set (g k). \<forall>y\<in>set (concat (map g ks)). h y \<le> h x"
  proof (intro ballI)
    fix x y assume x: "x \<in> set (g k)" and y: "y \<in> set (concat (map g ks))"
    from y obtain k' where k': "k' \<in> set ks" "y \<in> set (g k')" by auto
    with Cons.prems(2) [of k' y] have "h y = k'" by simp
    moreover from Cons.prems(1) k' have "k' < k" by simp
    ultimately show "h y \<le> h x" using hk [OF x] by simp
  qed
  ultimately show ?case by (simp add: sorted_wrt_append)
qed

lemma sorted_reverse_desc: "distinct ks \<Longrightarrow> sorted_wrt (\<lambda>a b. b < a) (sorted_reverse ks)"
  unfolding sorted_reverse_def sorted_wrt_rev
  using strict_sorted_iff [of "sort ks"] by simp

lemma set_sorted_reverse [simp]: "set (sorted_reverse ks) = set ks"
  by (simp add: sorted_reverse_def)

lemma distinct_sorted_reverse [simp]: "distinct (sorted_reverse ks) = distinct ks"
  by (simp add: sorted_reverse_def)


lemma prefix_append_drop:
  "prefix (a @ b) s \<longleftrightarrow> prefix a s \<and> prefix b (drop (length a) s)"
  by (auto simp: prefix_def)

lemma length_S [simp]: "length (S cs) = length cs"
  by (simp add: S_def)

lemma re_match_sharedtask_iff:
  "re_match_sharedtask s \<longleftrightarrow>
     prefix (S ''shared'' @ S ''task'') s \<or> (\<exists>c. isspace c \<and> prefix (S ''shared'' @ [c] @ S ''task'') s)"
proof -
  define r where "r = drop 6 s"
  have len: "length (S ''shared'') = 6" by simp
  have one: "prefix ([c] @ S ''task'') r \<longleftrightarrow> r \<noteq> [] \<and> hd r = c \<and> prefix (S ''task'') (tl r)" for c
    by (cases r) auto
  have a: "prefix (S ''shared'' @ S ''task'') s \<longleftrightarrow> prefix (S ''shared'') s \<and> prefix (S ''task'') r"
    unfolding r_def prefix_append_drop len ..
  have b: "prefix (S ''shared'' @ [c] @ S ''task'') s
             \<longleftrightarrow> prefix (S ''shared'') s \<and> r \<noteq> [] \<and> hd r = c \<and> prefix (S ''task'') (tl r)" for c
    unfolding one [symmetric] unfolding r_def prefix_append_drop [of "S ''shared''"] len ..
  have "re_match_sharedtask s \<longleftrightarrow>
          prefix (S ''shared'') s \<and>
          ((r \<noteq> [] \<and> isspace (hd r) \<and> prefix (S ''task'') (tl r)) \<or> prefix (S ''task'') r)"
    unfolding re_match_sharedtask_def Let_def r_def ..
  then show ?thesis
    unfolding a b by blast
qed

lemma re_search_sharedtask_iff:
  "re_search_sharedtask s \<longleftrightarrow>
     sublist (S ''shared'' @ S ''task'') s \<or> (\<exists>c. isspace c \<and> sublist (S ''shared'' @ [c] @ S ''task'') s)"
proof (induction s)
  case Nil
  show ?case
    by (simp add: re_match_sharedtask_iff S_Nil S_Cons)
next
  case (Cons x s)
  show ?case
    unfolding re_search_sharedtask.simps Cons.IH re_match_sharedtask_iff sublist_Cons_right
    by blast
qed

lemma re_search_shared_task_note: "re_search_sharedtask s \<longleftrightarrow> shared_task_note s"
proof -
  have "c \<in> set s" if "sublist (S ''shared'' @ [c] @ S ''task'') s" for c
    using set_mono_sublist [OF that] by auto
  then have "(\<exists>c. isspace c \<and> sublist (S ''shared'' @ [c] @ S ''task'') s)
        \<longleftrightarrow> (\<exists>c\<in>set s. isspace c \<and> sublist (S ''shared'' @ [c] @ S ''task'') s)"
    by blast
  moreover have "S ''sharedtask'' = S ''shared'' @ S ''task''"
    by (simp add: S_Nil S_Cons)
  ultimately show ?thesis
    unfolding re_search_sharedtask_iff shared_task_note_def by simp
qed

lemma category_step:
  "(if haskey e (S ''note'') \<and> re_search_sharedtask (str_lower E (the (map_of e (S ''note''))))
    then Inr (col_append col (S ''sharedtask'') e)
    else ebind (getitem e (S ''ENTRYTYPE'')) (\<lambda>t. Inr (col_append col t e)))
   = (case category E e of None \<Rightarrow> Inl (KeyError (S ''ENTRYTYPE''))
      | Some k \<Rightarrow> Inr (col_append col k e))"
  by (auto simp: category_def haskey_def getitem_def re_search_shared_task_note split: option.splits)

lemma category_loop_ok:
  "\<forall>e\<in>set db. category E e \<noteq> None \<Longrightarrow>
   order_db_loop E db (S ''ENTRYTYPE'') col = Inr (group_by_key (category E) db col)"
proof (induction db arbitrary: col)
  case Nil
  then show ?case by simp
next
  case (Cons e db)
  have ne: "S ''ENTRYTYPE'' \<noteq> S ''date''" by (simp add: S_Nil S_Cons)
  from Cons.prems obtain k where k: "category E e = Some k" by auto
  from Cons ne k show ?case
    unfolding order_db_loop.simps category_step by simp
qed

lemma category_loop_error:
  "\<exists>e\<in>set db. category E e = None \<Longrightarrow>
   order_db_loop E db (S ''ENTRYTYPE'') col = Inl (KeyError (S ''ENTRYTYPE''))"
proof (induction db arbitrary: col)
  case Nil
  then show ?case by simp
next
  case (Cons e db)
  have ne: "S ''ENTRYTYPE'' \<noteq> S ''date''" by (simp add: S_Nil S_Cons)
  show ?case
  proof (cases "category E e")
    case None
    with ne show ?thesis
      unfolding order_db_loop.simps category_step by simp
  next
    case (Some k)
    with Cons.prems have "\<exists>e\<in>set db. category E e = None" by auto
    with Some Cons.IH ne show ?thesis
      unfolding order_db_loop.simps category_step by simp
  qed
qed

text \<open>
  C3 (amended). In the mode \<open>"ENTRYTYPE"\<close> the classifier files a record under
  \<open>sharedtask\<close> when it has a note whose lower-case text holds \<open>shared\<close>, at most one
  whitespace character, and \<open>task\<close>, whatever its entry type; otherwise it files it
  under its entry type (and raises \<open>KeyError\<close> when it has none). A hyphen between the
  two words is not matched.
\<close>

theorem order_db_by_category:
  "order_db E [e] (S ''ENTRYTYPE'')
     = (case category E e of None \<Rightarrow> Inl (KeyError (S ''ENTRYTYPE''))
        | Some k \<Rightarrow> Inr [(k, [e])]) \<and>
   (category E e = Some (S ''sharedtask'') \<longleftrightarrow>
      (\<exists>n. map_of e (S ''note'') = Some n \<and> shared_task_note (str_lower E n))
      \<or> map_of e (S ''ENTRYTYPE'') = Some (S ''sharedtask'')) \<and>
   ((\<exists>e\<in>set db. category E e = None) \<longrightarrow>
      order_db E db (S ''ENTRYTYPE'') = Inl (KeyError (S ''ENTRYTYPE''))) \<and>
   (\<forall>col. order_db E db (S ''ENTRYTYPE'') = Inr col \<longrightarrow>
      (\<forall>e\<in>set db. category E e \<noteq> None) \<and>
      (\<forall>k. col_get col k = filter (\<lambda>e. category E e = Some k) db))"
proof (intro conjI)
  show "order_db E [e] (S ''ENTRYTYPE'')
     = (case category E e of None \<Rightarrow> Inl (KeyError (S ''ENTRYTYPE''))
        | Some k \<Rightarrow> Inr [(k, [e])])"
  proof (cases "category E e")
    case None
    then show ?thesis
      unfolding order_db_def using category_loop_error [of "[e]" E "[]"] by simp
  next
    case (Some k)
    then show ?thesis
      unfolding order_db_def using category_loop_ok [of "[e]" E "[]"] by simp
  qed
  show "category E e = Some (S ''sharedtask'') \<longleftrightarrow>
      (\<exists>n. map_of e (S ''note'') = Some n \<and> shared_task_note (str_lower E n))
      \<or> map_of e (S ''ENTRYTYPE'') = Some (S ''sharedtask'')"
    by (auto simp: category_def split: option.splits)
  show "(\<exists>e\<in>set db. category E e = None) \<longrightarrow>
      order_db E db (S ''ENTRYTYPE'') = Inl (KeyError (S ''ENTRYTYPE''))"
    unfolding order_db_def by (auto intro: category_loop_error)
  show "\<forall>col. order_db E db (S ''ENTRYTYPE'') = Inr col \<longrightarrow>
      (\<forall>e\<in>set db. category E e \<noteq> None) \<and>
      (\<forall>k. col_get col k = filter (\<lambda>e. category E e = Some k) db)"
  proof (cases "\<exists>e\<in>set db. category E e = None")
    case True
    then have "order_db E db (S ''ENTRYTYPE'') = Inl (KeyError (S ''ENTRYTYPE''))"
      unfolding order_db_def by (rule category_loop_error)
    then show ?thesis by simp
  next
    case False
    then have all: "\<forall>e\<in>set db. category E e \<noteq> None" by simp
    have "order_db E db (S ''ENTRYTYPE'') = Inr (group_by_key (category E) db [])"
      unfolding order_db_def by (rule category_loop_ok [OF all])
    with all show ?thesis
      by (simp add: col_get_group [OF all] col_get_Nil)
  qed
qed


lemma ex_shared_order:
  "order_db (ascii_env []) [ex_hyphen, ex_shared] (S ''ENTRYTYPE'')
     = Inr [(S ''inproceedings'', [ex_hyphen]), (S ''sharedtask'', [ex_shared])]"
  by (simp add: order_db_def ex_hyphen_def ex_shared_def haskey_def getitem_def ascii_env_def
        re_match_sharedtask_def S_Nil S_Cons isspace_def)

lemma ex_shared_note:
  "shared_task_note (str_lower (ascii_env []) (S ''SharedTask results''))"
  unfolding re_search_shared_task_note [symmetric]
  by (simp add: ascii_env_def re_match_sharedtask_def S_Nil S_Cons)

theorem order_db_by_category_witness:
  "order_db (ascii_env []) [ex_shared] (S ''ENTRYTYPE'') = Inr [(S ''sharedtask'', [ex_shared])] \<and>
   (\<exists>e\<in>set [[(S ''ID'', S ''x'')]]. category (ascii_env []) e = None) \<and>
   order_db (ascii_env []) [[(S ''ID'', S ''x'')]] (S ''ENTRYTYPE'') = Inl (KeyError (S ''ENTRYTYPE'')) \<and>
   order_db (ascii_env []) [ex_hyphen, ex_shared] (S ''ENTRYTYPE'')
     = Inr [(S ''inproceedings'', [ex_hyphen]), (S ''sharedtask'', [ex_shared])] \<and>
   (\<forall>k. col_get [(S ''inproceedings'', [ex_hyphen]), (S ''sharedtask'', [ex_shared])] k
         = filter (\<lambda>e. category (ascii_env []) e = Some k) [ex_hyphen, ex_shared])"
proof -
  have n: "\<exists>n. map_of ex_shared (S ''note'') = Some n \<and> shared_task_note (str_lower (ascii_env []) n)"
    using ex_shared_note by (simp add: ex_shared_def S_Nil S_Cons)
  from order_db_by_category [of "ascii_env []" ex_shared "[]"] n
  have c: "category (ascii_env []) ex_shared = Some (S ''sharedtask'')"
    by blast
  from order_db_by_category [of "ascii_env []" ex_shared "[]"]
  have a: "order_db (ascii_env []) [ex_shared] (S ''ENTRYTYPE'') = Inr [(S ''sharedtask'', [ex_shared])]"
    unfolding c by simp
  have h: "\<exists>e\<in>set [[(S ''ID'', S ''x'')]]. category (ascii_env []) e = None"
    by (simp add: category_def S_Nil S_Cons)
  from order_db_by_category [of "ascii_env []" ex_shared "[[(S ''ID'', S ''x'')]]"] h
  have b: "order_db (ascii_env []) [[(S ''ID'', S ''x'')]] (S ''ENTRYTYPE'') = Inl (KeyError (S ''ENTRYTYPE''))"
    by blast
  from order_db_by_category [of "ascii_env []" ex_shared "[ex_hyphen, ex_shared]"] ex_shared_order
  have d: "\<forall>k. col_get [(S ''inproceedings'', [ex_hyphen]), (S ''sharedtask'', [ex_shared])] k
         = filter (\<lambda>e. category (ascii_env []) e = Some k) [ex_hyphen, ex_shared]"
    by blast
  from a h b ex_shared_order d show ?thesis by blast
qed

text \<open>The claim as the specification states it fails: a note \<open>shared-task\<close> leaves
  the record in the category of its entry type.\<close>

theorem order_db_by_category_counterexample:
  "map_of ex_hyphen (S ''note'') = Some (S ''shared-task'') \<and>
   order_db (ascii_env []) [ex_hyphen] (S ''ENTRYTYPE'') = Inr [(S ''inproceedings'', [ex_hyphen])]"
  by (simp add: order_db_def ex_hyphen_def haskey_def getitem_def ascii_env_def
        re_match_sharedtask_def S_Nil S_Cons isspace_def)

section \<open>The driver and the order by date\<close>

lemma bibtex2html_files: "bibtex2html bib pdf_dir w = (r, w') \<Longrightarrow> files w' = files w"
  by (auto simp: bibtex2html_def split: sum.splits error.splits)

lemma html_items_files:
  "html_items bibs pdf_dir p w = (r, w') \<Longrightarrow> q \<noteq> p \<Longrightarrow> files w' q = files w q"
proof (induction bibs arbitrary: w)
  case Nil
  then show ?case by simp
next
  case (Cons bib bibs)
  obtain r1 w1 where b: "bibtex2html bib pdf_dir w = (r1, w1)"
    by (cases "bibtex2html bib pdf_dir w")
  from bibtex2html_files [OF b] have f: "files w1 = files w" .
  show ?case
  proof (cases r1)
    case (Inl e)
    with Cons.prems b f show ?thesis by simp
  next
    case (Inr item)
    with Cons.prems b have "html_items bibs pdf_dir p (fwrite p (S ''<li> '' @ item) w1) = (r, w')"
      by simp
    from Cons.IH [OF this Cons.prems(2)] Cons.prems(2) f show ?thesis by simp
  qed
qed

lemma foldl_fwrite_text:
  "files w p = Some (Text t) \<Longrightarrow>
   files (foldl (\<lambda>w k. fwrite p (f k) w) w ks) p = Some (Text (t @ concat (map f ks)))"
  by (induction ks arbitrary: w t) (simp_all add: files_fwrite_fresh)

lemma by_date_ok:
  assumes "\<forall>e\<in>set db. date_key e \<noteq> None"
  shows "order_db E db (S ''date'') = Inr (group_by_key date_key db [])"
    and "col_get (group_by_key date_key db []) k = filter (\<lambda>e. date_key e = Some k) db"
    and "distinct (keys (group_by_key date_key db []))"
    and "set (keys (group_by_key date_key db [])) = {k. \<exists>e\<in>set db. date_key e = Some k}"
proof -
  show "order_db E db (S ''date'') = Inr (group_by_key date_key db [])"
    unfolding order_db_def by (rule date_loop_ok [OF assms])
  show "col_get (group_by_key date_key db []) k = filter (\<lambda>e. date_key e = Some k) db"
    by (simp add: col_get_group [OF assms] col_get_Nil)
  show "distinct (keys (group_by_key date_key db []))"
    by (rule keys_group_distinct) (simp add: keys_simps)
  show "set (keys (group_by_key date_key db [])) = {k. \<exists>e\<in>set db. date_key e = Some k}"
    by (simp add: keys_group_set [OF assms] keys_simps)
qed

lemma html_types_files:
  "html_types E col ts pdf_dir p w = (r, w') \<Longrightarrow> q \<noteq> p \<Longrightarrow> files w' q = files w q"
proof (induction ts arbitrary: w)
  case Nil
  then show ?case by simp
next
  case (Cons t ts)
  obtain key label where t: "t = (key, label)" by (cases t)
  let ?w1 = "fwrite p (S ''<h3>'' @ label @ S ''</h3>'' @ [10]) w"
  show ?case
  proof (cases "order_db E (col_get col key) (S ''date'')")
    case (Inl e)
    with Cons.prems t show ?thesis by (auto simp: Let_def)
  next
    case (Inr d)
    obtain r2 w2 where h: "html_dates d (sorted_reverse (keys d)) pdf_dir p (fwrite p (S ''<ul>'' @ [10]) ?w1) = (r2, w2)"
      by (cases "html_dates d (sorted_reverse (keys d)) pdf_dir p (fwrite p (S ''<ul>'' @ [10]) ?w1)")
    from h have "files w2 q = files (fwrite p (S ''<ul>'' @ [10]) ?w1) q"
      unfolding html_dates_concat using html_items_files Cons.prems(2) by blast
    with Cons.prems(2) have f2: "files w2 q = files w q" by simp
    show ?thesis
    proof (cases r2)
      case (Inl e)
      with Cons.prems t Inr h f2 show ?thesis by (simp add: Let_def)
    next
      case (Inr u)
      with Cons.prems t \<open>order_db E (col_get col key) (S ''date'') = Inr d\<close> h
      have "html_types E col ts pdf_dir p (fwrite p (S ''</ul>'' @ [10]) w2) = (r, w')"
        by (simp add: Let_def)
      from Cons.IH [OF this Cons.prems(2)] Cons.prems(2) f2 show ?thesis by simp
    qed
  qed
qed

lemma bib_loop_text:
  assumes "\<forall>c\<in>set ks. \<forall>e\<in>set (col_get col c). date_key e \<noteq> None"
    and "files w p = Some (Text t)"
  shows "\<exists>w'. bib_loop E p col ks w = (Inr (), w') \<and>
           files w' p = Some (Text (t @ concat (map (\<lambda>c.
              replicate 60 37 @ [10] @ S ''% '' @ c @ [10] @ replicate 60 37 @ [10] @
              concat (map (\<lambda>k. writer_write E (filter (\<lambda>e. date_key e = Some k) (col_get col c)))
                (sorted_reverse (keys (group_by_key date_key (col_get col c) []))))) ks)))"
  using assms
proof (induction ks arbitrary: w t)
  case Nil
  then show ?case by simp
next
  case (Cons c ks)
  let ?banner = "replicate 60 37 @ [10] @ S ''% '' @ c @ [10] @ replicate 60 37 @ [10]"
  let ?w1 = "fwrite p ?banner w"
  let ?col = "group_by_key date_key (col_get col c) []"
  from Cons.prems(1) have all: "\<forall>e\<in>set (col_get col c). date_key e \<noteq> None" by simp
  have od: "order_db E (col_get col c) (S ''date'') = Inr ?col"
    by (rule by_date_ok(1) [OF all])
  have step: "bib_loop E p col (c # ks) w = bib_loop E p col ks (bib_dates E p ?col ?w1)"
    by (simp add: od Let_def)
  have f1: "files ?w1 p = Some (Text (t @ ?banner))"
    by (rule files_fwrite_fresh [OF Cons.prems(2)])
  have "map (\<lambda>k. writer_write E (col_get ?col k)) (sorted_reverse (keys ?col))
        = map (\<lambda>k. writer_write E (filter (\<lambda>e. date_key e = Some k) (col_get col c))) (sorted_reverse (keys ?col))"
    by (simp add: by_date_ok(2) [OF all])
  with foldl_fwrite_text [OF f1, of "\<lambda>k. writer_write E (col_get ?col k)" "sorted_reverse (keys ?col)"]
  have f2: "files (bib_dates E p ?col ?w1) p = Some (Text ((t @ ?banner) @
      concat (map (\<lambda>k. writer_write E (filter (\<lambda>e. date_key e = Some k) (col_get col c))) (sorted_reverse (keys ?col)))))"
    unfolding bib_dates_def by simp
  from Cons.prems(1) have rest: "\<forall>c\<in>set ks. \<forall>e\<in>set (col_get col c). date_key e \<noteq> None" by simp
  from Cons.IH [OF rest f2] show ?case
    unfolding step by simp
qed


lemma by_category_ok:
  assumes "\<forall>e\<in>set db. category E e \<noteq> None"
  shows "order_db E db (S ''ENTRYTYPE'') = Inr (group_by_key (category E) db [])"
    and "col_get (group_by_key (category E) db []) k = filter (\<lambda>e. category E e = Some k) db"
    and "distinct (keys (group_by_key (category E) db []))"
    and "set (keys (group_by_key (category E) db [])) = {k. \<exists>e\<in>set db. category E e = Some k}"
proof -
  show "order_db E db (S ''ENTRYTYPE'') = Inr (group_by_key (category E) db [])"
    unfolding order_db_def by (rule category_loop_ok [OF assms])
  show "col_get (group_by_key (category E) db []) k = filter (\<lambda>e. category E e = Some k) db"
    by (simp add: col_get_group [OF assms] col_get_Nil)
  show "distinct (keys (group_by_key (category E) db []))"
    by (rule keys_group_distinct) (simp add: keys_simps)
  show "set (keys (group_by_key (category E) db [])) = {k. \<exists>e\<in>set db. category E e = Some k}"
    by (simp add: keys_group_set [OF assms] keys_simps)
qed

lemma main_files_bib:
  assumes rd: "read_many_bibs E paths_in True w = (Inr db, w1)"
    and od: "order_db E db (S ''ENTRYTYPE'') = Inr db_ordered"
    and bl: "bib_loop E path_bib db_ordered (sort (keys db_ordered))
               (open_wt path_bib (fwrite path_tsv (df_to_csv E db) (open_wt path_tsv w1))) = (Inr (), w3)"
    and ne: "path_html \<noteq> path_bib"
  shows "files (snd (main E paths_in pdf_dir path_tsv path_bib path_html w)) path_bib = files w3 path_bib"
proof (cases "card (set (keys db_ordered) \<union> set (keys types)) \<noteq> length (keys types)")
  case True
  with rd od bl show ?thesis by (simp add: main_def Let_def)
next
  case False
  let ?w4 = "fwrite path_html (S ''<html>'' @ [10]) (open_wt path_html w3)"
  obtain r w5 where h: "html_types E db_ordered types pdf_dir path_html ?w4 = (r, w5)"
    by (cases "html_types E db_ordered types pdf_dir path_html ?w4")
  from html_types_files [OF h, of path_bib] ne
  have f: "files w5 path_bib = files w3 path_bib" by simp
  show ?thesis
  proof (cases r)
    case (Inl e)
    with rd od bl False h f show ?thesis by (simp add: main_def Let_def)
  next
    case (Inr u)
    with rd od bl False h f ne show ?thesis by (simp add: main_def Let_def)
  qed
qed

lemma sorted_wrt_less_sort: "distinct ks \<Longrightarrow> sorted_wrt (\<lambda>a b. a < b) (sort ks)"
  using strict_sorted_iff [of "sort ks"] by simp

text \<open>
  C9. In the mode \<open>"date"\<close> the classifier files every record under its \<open>date\<close> field
  when it has one and under its \<open>year\<close> field otherwise; a record with neither makes
  it raise \<open>KeyError('year')\<close>, which ends the loops of the driver, so no record is
  dropped. The driver reads the keys in descending order: for a category whose records
  all have a date key, \<open>bib_loop\<close> writes the databases of the date keys, and
  \<open>html_types\<close> renders their records, along the one strictly descending list of the
  date keys that occur, so the records come each once, with date keys that never
  increase, and a record keyed \<open>2021-03\<close> comes before one keyed \<open>2020\<close>. After \<open>main\<close>
  the \<open>.bib\<close> file holds, for each category in ascending order, its banner and then
  its databases in descending order of the date keys.
\<close>

theorem order_db_by_date:
  "((\<exists>e\<in>set db. date_key e = None) \<longrightarrow>
      order_db E db (S ''date'') = Inl (KeyError (S ''year'')) \<and>
      (col_get db_ordered key = db \<longrightarrow>
         bib_loop E path_bib db_ordered (key # ks) w
           = (Inl (KeyError (S ''year'')),
              fwrite path_bib (replicate 60 37 @ [10] @ S ''% '' @ key @ [10] @ replicate 60 37 @ [10]) w) \<and>
         html_types E db_ordered ((key, label) # ts) pdf_dir path_html w
           = (Inl (KeyError (S ''year'')), fwrite path_html (S ''<h3>'' @ label @ S ''</h3>'' @ [10]) w))) \<and>
   ((\<forall>e\<in>set db. date_key e \<noteq> None) \<longrightarrow>
      (\<exists>col dates.
         order_db E db (S ''date'') = Inr col \<and>
         (\<forall>k. col_get col k = filter (\<lambda>e. date_key e = Some k) db) \<and>
         sorted_wrt (\<lambda>a b. b < a) dates \<and>
         set dates = {k. \<exists>e\<in>set db. date_key e = Some k} \<and>
         mset (concat (map (col_get col) dates)) = mset db \<and>
         sorted_wrt (\<lambda>a b. the (date_key b) \<le> the (date_key a)) (concat (map (col_get col) dates)) \<and>
         (col_get db_ordered key = db \<longrightarrow>
            bib_loop E path_bib db_ordered (key # ks) w
              = bib_loop E path_bib db_ordered ks
                  (foldl (\<lambda>w k. fwrite path_bib (writer_write E (col_get col k)) w)
                     (fwrite path_bib
                        (replicate 60 37 @ [10] @ S ''% '' @ key @ [10] @ replicate 60 37 @ [10]) w)
                     dates) \<and>
            html_types E db_ordered ((key, label) # ts) pdf_dir path_html w
              = (case html_items (concat (map (col_get col) dates)) pdf_dir path_html
                        (fwrite path_html (S ''<ul>'' @ [10])
                           (fwrite path_html (S ''<h3>'' @ label @ S ''</h3>'' @ [10]) w)) of
                   (Inl e, w2) \<Rightarrow> (Inl e, w2)
                 | (Inr u, w2) \<Rightarrow>
                     html_types E db_ordered ts pdf_dir path_html
                       (fwrite path_html (S ''</ul>'' @ [10]) w2))))) \<and>
   (read_many_bibs E paths_in True w = (Inr entries, w1) \<and>
    (\<forall>e\<in>set entries. category E e \<noteq> None \<and> date_key e \<noteq> None) \<and> path_html \<noteq> path_bib \<longrightarrow>
      (\<exists>cats dates_of.
         sorted_wrt (\<lambda>a b. a < b) cats \<and>
         set cats = {c. \<exists>e\<in>set entries. category E e = Some c} \<and>
         (\<forall>c\<in>set cats.
            sorted_wrt (\<lambda>a b. b < a) (dates_of c) \<and>
            set (dates_of c) = {k. \<exists>e\<in>set entries. category E e = Some c \<and> date_key e = Some k}) \<and>
         files (snd (main E paths_in pdf_dir path_tsv path_bib path_html w)) path_bib
           = Some (Text (concat (map (\<lambda>c.
               replicate 60 37 @ [10] @ S ''% '' @ c @ [10] @ replicate 60 37 @ [10] @
               concat (map (\<lambda>k. writer_write E
                                   (filter (\<lambda>e. category E e = Some c \<and> date_key e = Some k) entries))
                         (dates_of c))) cats)))))"
proof (intro conjI impI)
  assume ex: "\<exists>e\<in>set db. date_key e = None"
  show err: "order_db E db (S ''date'') = Inl (KeyError (S ''year''))"
    unfolding order_db_def by (rule date_loop_error [OF ex])
  {
    assume g: "col_get db_ordered key = db"
    show "bib_loop E path_bib db_ordered (key # ks) w
           = (Inl (KeyError (S ''year'')),
              fwrite path_bib (replicate 60 37 @ [10] @ S ''% '' @ key @ [10] @ replicate 60 37 @ [10]) w)"
      by (simp add: g err Let_def)
    show "html_types E db_ordered ((key, label) # ts) pdf_dir path_html w
           = (Inl (KeyError (S ''year'')), fwrite path_html (S ''<h3>'' @ label @ S ''</h3>'' @ [10]) w)"
      by (simp add: g err Let_def)
  }
next
  assume all: "\<forall>e\<in>set db. date_key e \<noteq> None"
  define col where "col = group_by_key date_key db []"
  define dates where "dates = sorted_reverse (keys col)"
  have od: "order_db E db (S ''date'') = Inr col"
    unfolding col_def by (rule by_date_ok(1) [OF all])
  have get: "col_get col k = filter (\<lambda>e. date_key e = Some k) db" for k
    unfolding col_def by (rule by_date_ok(2) [OF all])
  have dist: "distinct (keys col)"
    unfolding col_def by (rule by_date_ok(3) [OF all])
  have ks: "set (keys col) = {k. \<exists>e\<in>set db. date_key e = Some k}"
    unfolding col_def by (rule by_date_ok(4) [OF all])
  have desc: "sorted_wrt (\<lambda>a b. b < a) dates"
    unfolding dates_def by (rule sorted_reverse_desc [OF dist])
  have sd: "set dates = {k. \<exists>e\<in>set db. date_key e = Some k}"
    unfolding dates_def by (simp add: ks)
  have dd: "distinct dates"
    unfolding dates_def by (simp add: dist)
  have eq: "map (col_get col) dates = map (\<lambda>k. filter (\<lambda>e. date_key e = Some k) db) dates"
    by (simp add: get)
  have "date_key e \<in> Some ` set dates" if "e \<in> set db" for e
  proof -
    from all that obtain k where "date_key e = Some k" by auto
    with that show ?thesis by (auto simp: sd)
  qed
  then have "filter (\<lambda>e. date_key e \<in> Some ` set dates) db = db"
    by (intro filter_True) simp
  then have perm: "mset (concat (map (col_get col) dates)) = mset db"
    unfolding eq using mset_concat_groups [of dates date_key db] dd by simp
  have ord: "sorted_wrt (\<lambda>a b. the (date_key b) \<le> the (date_key a)) (concat (map (col_get col) dates))"
    by (rule sorted_wrt_groups [OF desc]) (simp add: get)
  have drv: "bib_loop E path_bib db_ordered (key # ks) w
              = bib_loop E path_bib db_ordered ks
                  (foldl (\<lambda>w k. fwrite path_bib (writer_write E (col_get col k)) w)
                     (fwrite path_bib
                        (replicate 60 37 @ [10] @ S ''% '' @ key @ [10] @ replicate 60 37 @ [10]) w)
                     dates) \<and>
            html_types E db_ordered ((key, label) # ts) pdf_dir path_html w
              = (case html_items (concat (map (col_get col) dates)) pdf_dir path_html
                        (fwrite path_html (S ''<ul>'' @ [10])
                           (fwrite path_html (S ''<h3>'' @ label @ S ''</h3>'' @ [10]) w)) of
                   (Inl e, w2) \<Rightarrow> (Inl e, w2)
                 | (Inr u, w2) \<Rightarrow>
                     html_types E db_ordered ts pdf_dir path_html
                       (fwrite path_html (S ''</ul>'' @ [10]) w2))"
    if g: "col_get db_ordered key = db"
    by (simp add: g od Let_def bib_dates_def dates_def html_dates_concat)
  from od get desc sd perm ord drv
  show "\<exists>col dates.
         order_db E db (S ''date'') = Inr col \<and>
         (\<forall>k. col_get col k = filter (\<lambda>e. date_key e = Some k) db) \<and>
         sorted_wrt (\<lambda>a b. b < a) dates \<and>
         set dates = {k. \<exists>e\<in>set db. date_key e = Some k} \<and>
         mset (concat (map (col_get col) dates)) = mset db \<and>
         sorted_wrt (\<lambda>a b. the (date_key b) \<le> the (date_key a)) (concat (map (col_get col) dates)) \<and>
         (col_get db_ordered key = db \<longrightarrow>
            bib_loop E path_bib db_ordered (key # ks) w
              = bib_loop E path_bib db_ordered ks
                  (foldl (\<lambda>w k. fwrite path_bib (writer_write E (col_get col k)) w)
                     (fwrite path_bib
                        (replicate 60 37 @ [10] @ S ''% '' @ key @ [10] @ replicate 60 37 @ [10]) w)
                     dates) \<and>
            html_types E db_ordered ((key, label) # ts) pdf_dir path_html w
              = (case html_items (concat (map (col_get col) dates)) pdf_dir path_html
                        (fwrite path_html (S ''<ul>'' @ [10])
                           (fwrite path_html (S ''<h3>'' @ label @ S ''</h3>'' @ [10]) w)) of
                   (Inl e, w2) \<Rightarrow> (Inl e, w2)
                 | (Inr u, w2) \<Rightarrow>
                     html_types E db_ordered ts pdf_dir path_html
                       (fwrite path_html (S ''</ul>'' @ [10]) w2)))"
    by blast
next
  assume a: "read_many_bibs E paths_in True w = (Inr entries, w1) \<and>
    (\<forall>e\<in>set entries. category E e \<noteq> None \<and> date_key e \<noteq> None) \<and> path_html \<noteq> path_bib"
  then have rd: "read_many_bibs E paths_in True w = (Inr entries, w1)"
    and cat: "\<forall>e\<in>set entries. category E e \<noteq> None"
    and dat: "\<forall>e\<in>set entries. date_key e \<noteq> None"
    and ne: "path_html \<noteq> path_bib"
    by auto
  define db_ordered where "db_ordered = group_by_key (category E) entries []"
  define cats where "cats = sort (keys db_ordered)"
  define dates_of where
    "dates_of = (\<lambda>c. sorted_reverse (keys (group_by_key date_key (col_get db_ordered c) [])))"
  have od: "order_db E entries (S ''ENTRYTYPE'') = Inr db_ordered"
    unfolding db_ordered_def by (rule by_category_ok(1) [OF cat])
  have get: "col_get db_ordered c = filter (\<lambda>e. category E e = Some c) entries" for c
    unfolding db_ordered_def by (rule by_category_ok(2) [OF cat])
  have dist: "distinct (keys db_ordered)"
    unfolding db_ordered_def by (rule by_category_ok(3) [OF cat])
  have sk: "set (keys db_ordered) = {c. \<exists>e\<in>set entries. category E e = Some c}"
    unfolding db_ordered_def by (rule by_category_ok(4) [OF cat])
  have c1: "sorted_wrt (\<lambda>a b. a < b) cats"
    unfolding cats_def by (rule sorted_wrt_less_sort [OF dist])
  have c2: "set cats = {c. \<exists>e\<in>set entries. category E e = Some c}"
    unfolding cats_def by (simp add: sk)
  have gd: "\<forall>e\<in>set (col_get db_ordered c). date_key e \<noteq> None" for c
    using dat by (simp add: get)
  have c3: "\<forall>c\<in>set cats.
            sorted_wrt (\<lambda>a b. b < a) (dates_of c) \<and>
            set (dates_of c) = {k. \<exists>e\<in>set entries. category E e = Some c \<and> date_key e = Some k}"
  proof
    fix c assume "c \<in> set cats"
    have "sorted_wrt (\<lambda>a b. b < a) (dates_of c)"
      unfolding dates_of_def by (rule sorted_reverse_desc [OF by_date_ok(3) [OF gd]])
    moreover have "set (dates_of c) = {k. \<exists>e\<in>set (col_get db_ordered c). date_key e = Some k}"
      unfolding dates_of_def by (simp add: by_date_ok(4) [OF gd])
    then have "set (dates_of c) = {k. \<exists>e\<in>set entries. category E e = Some c \<and> date_key e = Some k}"
      by (auto simp: get)
    ultimately show "sorted_wrt (\<lambda>a b. b < a) (dates_of c) \<and>
            set (dates_of c) = {k. \<exists>e\<in>set entries. category E e = Some c \<and> date_key e = Some k}"
      by simp
  qed
  let ?w0 = "open_wt path_bib (fwrite path_tsv (df_to_csv E entries) (open_wt path_tsv w1))"
  have f0: "files ?w0 path_bib = Some (Text [])" by simp
  have "\<forall>c\<in>set cats. \<forall>e\<in>set (col_get db_ordered c). date_key e \<noteq> None"
    using gd by simp
  from bib_loop_text [OF this f0, of E]
  obtain w3 where bl: "bib_loop E path_bib db_ordered cats ?w0 = (Inr (), w3)"
    and f3: "files w3 path_bib = Some (Text ([] @ concat (map (\<lambda>c.
              replicate 60 37 @ [10] @ S ''% '' @ c @ [10] @ replicate 60 37 @ [10] @
              concat (map (\<lambda>k. writer_write E (filter (\<lambda>e. date_key e = Some k) (col_get db_ordered c)))
                (sorted_reverse (keys (group_by_key date_key (col_get db_ordered c) []))))) cats)))"
    by blast
  have c4: "files (snd (main E paths_in pdf_dir path_tsv path_bib path_html w)) path_bib
           = Some (Text (concat (map (\<lambda>c.
               replicate 60 37 @ [10] @ S ''% '' @ c @ [10] @ replicate 60 37 @ [10] @
               concat (map (\<lambda>k. writer_write E
                                   (filter (\<lambda>e. category E e = Some c \<and> date_key e = Some k) entries))
                         (dates_of c))) cats)))"
    unfolding main_files_bib [OF rd od bl [unfolded cats_def] ne] f3 dates_of_def
    by (simp add: get)
  from c1 c2 c3 c4
  show "\<exists>cats dates_of.
         sorted_wrt (\<lambda>a b. a < b) cats \<and>
         set cats = {c. \<exists>e\<in>set entries. category E e = Some c} \<and>
         (\<forall>c\<in>set cats.
            sorted_wrt (\<lambda>a b. b < a) (dates_of c) \<and>
            set (dates_of c) = {k. \<exists>e\<in>set entries. category E e = Some c \<and> date_key e = Some k}) \<and>
         files (snd (main E paths_in pdf_dir path_tsv path_bib path_html w)) path_bib
           = Some (Text (concat (map (\<lambda>c.
               replicate 60 37 @ [10] @ S ''% '' @ c @ [10] @ replicate 60 37 @ [10] @
               concat (map (\<lambda>k. writer_write E
                                   (filter (\<lambda>e. category E e = Some c \<and> date_key e = Some k) entries))
                         (dates_of c))) cats)))"
    by blast
qed


lemma strict_desc_unique:
  fixes xs :: "'a::linorder list"
  assumes "sorted_wrt (\<lambda>a b. b < a) xs" and "sorted_wrt (\<lambda>a b. b < a) ys" and "set xs = set ys"
  shows "xs = ys"
proof -
  from assms(1) have "sorted_wrt (\<lambda>a b. a < b) (rev xs)" by (simp add: sorted_wrt_rev)
  then have x: "sorted (rev xs)" "distinct (rev xs)" using strict_sorted_iff [of "rev xs"] by simp_all
  from assms(2) have "sorted_wrt (\<lambda>a b. a < b) (rev ys)" by (simp add: sorted_wrt_rev)
  then have y: "sorted (rev ys)" "distinct (rev ys)" using strict_sorted_iff [of "rev ys"] by simp_all
  from assms(3) have "set (rev xs) = set (rev ys)" by simp
  from sorted_distinct_set_unique [OF x y this] show ?thesis by simp
qed

lemma strict_asc_unique:
  fixes xs :: "'a::linorder list"
  assumes "sorted_wrt (\<lambda>a b. a < b) xs" and "sorted_wrt (\<lambda>a b. a < b) ys" and "set xs = set ys"
  shows "xs = ys"
proof -
  from assms(1) have x: "sorted xs" "distinct xs" using strict_sorted_iff [of xs] by simp_all
  from assms(2) have y: "sorted ys" "distinct ys" using strict_sorted_iff [of ys] by simp_all
  from sorted_distinct_set_unique [OF x y assms(3)] show ?thesis .
qed

lemma ex_date_keys:
  "date_key ex_year = Some (S ''2020'')" "date_key ex_dated = Some (S ''2021-03'')"
  "date_key ex_undated = None"
  by (simp_all add: date_key_def ex_year_def ex_dated_def ex_undated_def S_Nil S_Cons)

lemma ex_categories:
  "category E ex_year = Some (S ''article'')" "category E ex_dated = Some (S ''article'')"
  by (simp_all add: category_def ex_year_def ex_dated_def S_Nil S_Cons)

lemma ex_dates_desc: "sorted_wrt (\<lambda>a b. b < a) [S ''2021-03'', S ''2020'']"
  by (simp add: S_Nil S_Cons)

lemma ex_by_date:
  "order_db E [ex_year, ex_dated] (S ''date'')
     = Inr [(S ''2020'', [ex_year]), (S ''2021-03'', [ex_dated])]"
  by (simp add: order_db_def ex_year_def ex_dated_def getitem_def haskey_def S_Nil S_Cons)

lemma ex_read2:
  "read_many_bibs (ascii_env ex_parsed2) [S ''bib/b.bib'', S ''bib/a.bib''] True ex_world2
     = (Inr [ex_year, ex_dated], ex_world2)"
  by (simp add: read_many_bibs_def ex_world2_def ascii_env_def ex_parsed2_def ex_year_def ex_dated_def
        getitem_def formatter_def formatter_key_def S_Nil S_Cons)
theorem order_db_by_date_witness:
  "(\<exists>e\<in>set [ex_year, ex_undated]. date_key e = None) \<and>
   order_db (ascii_env ex_parsed2) [ex_year, ex_undated] (S ''date'') = Inl (KeyError (S ''year'')) \<and>
   bib_loop (ascii_env ex_parsed2) (S ''p.bib'') [(S ''article'', [ex_year, ex_undated])]
       [S ''article''] ex_nofiles
     = (Inl (KeyError (S ''year'')),
        fwrite (S ''p.bib'')
          (replicate 60 37 @ [10] @ S ''% '' @ S ''article'' @ [10] @ replicate 60 37 @ [10]) ex_nofiles) \<and>
   html_types (ascii_env ex_parsed2) [(S ''article'', [ex_year, ex_undated])]
       [(S ''article'', S ''Journal Articles'')] (S ''pdf/'') (S ''p.html'') ex_nofiles
     = (Inl (KeyError (S ''year'')),
        fwrite (S ''p.html'') (S ''<h3>'' @ S ''Journal Articles'' @ S ''</h3>'' @ [10]) ex_nofiles) \<and>
   list_all (\<lambda>e. date_key e \<noteq> None) [ex_year, ex_dated] \<and>
   order_db (ascii_env ex_parsed2) [ex_year, ex_dated] (S ''date'')
     = Inr [(S ''2020'', [ex_year]), (S ''2021-03'', [ex_dated])] \<and>
   bib_loop (ascii_env ex_parsed2) (S ''p.bib'') [(S ''article'', [ex_year, ex_dated])]
       [S ''article''] ex_nofiles
     = (Inr (),
        fwrite (S ''p.bib'') (writer_write (ascii_env ex_parsed2) [ex_year])
          (fwrite (S ''p.bib'') (writer_write (ascii_env ex_parsed2) [ex_dated])
             (fwrite (S ''p.bib'')
                (replicate 60 37 @ [10] @ S ''% '' @ S ''article'' @ [10] @ replicate 60 37 @ [10])
                ex_nofiles))) \<and>
   html_types (ascii_env ex_parsed2) [(S ''article'', [ex_year, ex_dated])]
       [(S ''article'', S ''Journal Articles'')] (S ''pdf/'') (S ''p.html'') ex_nofiles
     = (case html_items [ex_dated, ex_year] (S ''pdf/'') (S ''p.html'')
               (fwrite (S ''p.html'') (S ''<ul>'' @ [10])
                  (fwrite (S ''p.html'') (S ''<h3>'' @ S ''Journal Articles'' @ S ''</h3>'' @ [10])
                     ex_nofiles)) of
          (Inl e, w2) \<Rightarrow> (Inl e, w2)
        | (Inr u, w2) \<Rightarrow> (Inr (), fwrite (S ''p.html'') (S ''</ul>'' @ [10]) w2)) \<and>
   read_many_bibs (ascii_env ex_parsed2) [S ''bib/b.bib'', S ''bib/a.bib''] True ex_world2
     = (Inr [ex_year, ex_dated], ex_world2) \<and>
   list_all (\<lambda>e. category (ascii_env ex_parsed2) e \<noteq> None \<and> date_key e \<noteq> None) [ex_year, ex_dated] \<and>
   S ''p.html'' \<noteq> S ''p.bib'' \<and>
   files (snd (main (ascii_env ex_parsed2) [S ''bib/b.bib'', S ''bib/a.bib''] (S ''pdf/'')
                 (S ''p.tsv'') (S ''p.bib'') (S ''p.html'') ex_world2)) (S ''p.bib'')
     = Some (Text (replicate 60 37 @ [10] @ S ''% '' @ S ''article'' @ [10] @ replicate 60 37 @ [10]
                   @ writer_write (ascii_env ex_parsed2) [ex_dated]
                   @ writer_write (ascii_env ex_parsed2) [ex_year]))"
proof -
  let ?E = "ascii_env ex_parsed2"
  let ?banner = "replicate 60 37 @ [10] @ S ''% '' @ S ''article'' @ [10] @ replicate 60 37 @ [10]"
  have h1: "\<exists>e\<in>set [ex_year, ex_undated]. date_key e = None"
    by (simp add: ex_date_keys)
  have g1: "col_get [(S ''article'', [ex_year, ex_undated])] (S ''article'') = [ex_year, ex_undated]"
    by (simp add: col_get_def)
  note A = order_db_by_date [where db = "[ex_year, ex_undated]" and E = ?E
      and db_ordered = "[(S ''article'', [ex_year, ex_undated])]" and key = "S ''article''"
      and ks = "[]" and w = ex_nofiles and path_bib = "S ''p.bib''" and label = "S ''Journal Articles''"
      and ts = "[]" and pdf_dir = "S ''pdf/''" and path_html = "S ''p.html''",
      THEN conjunct1, THEN mp, OF h1]
  from A have a1: "order_db ?E [ex_year, ex_undated] (S ''date'') = Inl (KeyError (S ''year''))"
    by (rule conjunct1)
  from A [THEN conjunct2, THEN mp, OF g1]
  have a2: "bib_loop ?E (S ''p.bib'') [(S ''article'', [ex_year, ex_undated])] [S ''article''] ex_nofiles
        = (Inl (KeyError (S ''year'')), fwrite (S ''p.bib'') ?banner ex_nofiles)"
    and a3: "html_types ?E [(S ''article'', [ex_year, ex_undated])]
          [(S ''article'', S ''Journal Articles'')] (S ''pdf/'') (S ''p.html'') ex_nofiles
        = (Inl (KeyError (S ''year'')),
           fwrite (S ''p.html'') (S ''<h3>'' @ S ''Journal Articles'' @ S ''</h3>'' @ [10]) ex_nofiles)"
    by (rule conjunct1, rule conjunct2)
  have h2: "\<forall>e\<in>set [ex_year, ex_dated]. date_key e \<noteq> None"
    by (simp add: ex_date_keys)
  have g2: "col_get [(S ''article'', [ex_year, ex_dated])] (S ''article'') = [ex_year, ex_dated]"
    by (simp add: col_get_def)
  from order_db_by_date [where db = "[ex_year, ex_dated]" and E = ?E
      and db_ordered = "[(S ''article'', [ex_year, ex_dated])]" and key = "S ''article''"
      and ks = "[]" and w = ex_nofiles and path_bib = "S ''p.bib''" and label = "S ''Journal Articles''"
      and ts = "[]" and pdf_dir = "S ''pdf/''" and path_html = "S ''p.html''",
      THEN conjunct2, THEN conjunct1, THEN mp, OF h2]
  obtain col dates where od: "order_db ?E [ex_year, ex_dated] (S ''date'') = Inr col"
    and desc: "sorted_wrt (\<lambda>a b. b < a) dates"
    and sd: "set dates = {k. \<exists>e\<in>set [ex_year, ex_dated]. date_key e = Some k}"
    and drv: "col_get [(S ''article'', [ex_year, ex_dated])] (S ''article'') = [ex_year, ex_dated] \<longrightarrow>
            bib_loop ?E (S ''p.bib'') [(S ''article'', [ex_year, ex_dated])] [S ''article''] ex_nofiles
              = bib_loop ?E (S ''p.bib'') [(S ''article'', [ex_year, ex_dated])] []
                  (foldl (\<lambda>w k. fwrite (S ''p.bib'') (writer_write ?E (col_get col k)) w)
                     (fwrite (S ''p.bib'') ?banner ex_nofiles) dates) \<and>
            html_types ?E [(S ''article'', [ex_year, ex_dated])]
                 [(S ''article'', S ''Journal Articles'')] (S ''pdf/'') (S ''p.html'') ex_nofiles
              = (case html_items (concat (map (col_get col) dates)) (S ''pdf/'') (S ''p.html'')
                        (fwrite (S ''p.html'') (S ''<ul>'' @ [10])
                           (fwrite (S ''p.html'') (S ''<h3>'' @ S ''Journal Articles'' @ S ''</h3>'' @ [10])
                              ex_nofiles)) of
                   (Inl e, w2) \<Rightarrow> (Inl e, w2)
                 | (Inr u, w2) \<Rightarrow>
                     html_types ?E [(S ''article'', [ex_year, ex_dated])] [] (S ''pdf/'') (S ''p.html'')
                       (fwrite (S ''p.html'') (S ''</ul>'' @ [10]) w2))"
    by (elim exE conjE)
  from drv [THEN mp, OF g2]
  have bl: "bib_loop ?E (S ''p.bib'') [(S ''article'', [ex_year, ex_dated])] [S ''article''] ex_nofiles
              = bib_loop ?E (S ''p.bib'') [(S ''article'', [ex_year, ex_dated])] []
                  (foldl (\<lambda>w k. fwrite (S ''p.bib'') (writer_write ?E (col_get col k)) w)
                     (fwrite (S ''p.bib'') ?banner ex_nofiles) dates)"
    and ht: "html_types ?E [(S ''article'', [ex_year, ex_dated])]
                 [(S ''article'', S ''Journal Articles'')] (S ''pdf/'') (S ''p.html'') ex_nofiles
              = (case html_items (concat (map (col_get col) dates)) (S ''pdf/'') (S ''p.html'')
                        (fwrite (S ''p.html'') (S ''<ul>'' @ [10])
                           (fwrite (S ''p.html'') (S ''<h3>'' @ S ''Journal Articles'' @ S ''</h3>'' @ [10])
                              ex_nofiles)) of
                   (Inl e, w2) \<Rightarrow> (Inl e, w2)
                 | (Inr u, w2) \<Rightarrow>
                     html_types ?E [(S ''article'', [ex_year, ex_dated])] [] (S ''pdf/'') (S ''p.html'')
                       (fwrite (S ''p.html'') (S ''</ul>'' @ [10]) w2))"
    by (rule conjunct1, rule conjunct2)
  from od have col: "col = [(S ''2020'', [ex_year]), (S ''2021-03'', [ex_dated])]"
    by (simp add: ex_by_date)
  have od': "order_db ?E [ex_year, ex_dated] (S ''date'')
     = Inr [(S ''2020'', [ex_year]), (S ''2021-03'', [ex_dated])]"
    using od unfolding col .
  from sd have "set dates = set [S ''2021-03'', S ''2020'']"
    by (auto simp: ex_date_keys)
  from strict_desc_unique [OF desc ex_dates_desc this]
  have dates: "dates = [S ''2021-03'', S ''2020'']" .
  have gets: "col_get col (S ''2021-03'') = [ex_dated]" "col_get col (S ''2020'') = [ex_year]"
    unfolding col by (simp_all add: col_get_def S_Nil S_Cons)
  have b1: "bib_loop ?E (S ''p.bib'') [(S ''article'', [ex_year, ex_dated])] [S ''article''] ex_nofiles
     = (Inr (),
        fwrite (S ''p.bib'') (writer_write ?E [ex_year])
          (fwrite (S ''p.bib'') (writer_write ?E [ex_dated])
             (fwrite (S ''p.bib'') ?banner ex_nofiles)))"
    unfolding bl dates by (simp add: gets)
  have e: "concat (map (col_get col) dates) = [ex_dated, ex_year]"
    unfolding dates by (simp add: gets)
  have b2: "html_types ?E [(S ''article'', [ex_year, ex_dated])]
       [(S ''article'', S ''Journal Articles'')] (S ''pdf/'') (S ''p.html'') ex_nofiles
     = (case html_items [ex_dated, ex_year] (S ''pdf/'') (S ''p.html'')
               (fwrite (S ''p.html'') (S ''<ul>'' @ [10])
                  (fwrite (S ''p.html'') (S ''<h3>'' @ S ''Journal Articles'' @ S ''</h3>'' @ [10])
                     ex_nofiles)) of
          (Inl e, w2) \<Rightarrow> (Inl e, w2)
        | (Inr u, w2) \<Rightarrow> (Inr (), fwrite (S ''p.html'') (S ''</ul>'' @ [10]) w2))"
    unfolding ht e html_types.simps(1) ..
  have h3: "\<forall>e\<in>set [ex_year, ex_dated]. category ?E e \<noteq> None \<and> date_key e \<noteq> None"
    by (simp add: ex_date_keys ex_categories)
  have ne: "S ''p.html'' \<noteq> S ''p.bib''"
    by (simp add: S_Nil S_Cons)
  from order_db_by_date [where E = ?E and entries = "[ex_year, ex_dated]" and w = ex_world2
      and ?w1.0 = ex_world2 and paths_in = "[S ''bib/b.bib'', S ''bib/a.bib'']"
      and path_bib = "S ''p.bib''" and path_html = "S ''p.html''" and pdf_dir = "S ''pdf/''"
      and path_tsv = "S ''p.tsv''",
      THEN conjunct2, THEN conjunct2, THEN mp, OF conjI [OF ex_read2 conjI [OF h3 ne]]]
  obtain cats dates_of where asc: "sorted_wrt (\<lambda>a b. a < b) cats"
    and sc: "set cats = {c. \<exists>e\<in>set [ex_year, ex_dated]. category ?E e = Some c}"
    and dof: "\<forall>c\<in>set cats.
            sorted_wrt (\<lambda>a b. b < a) (dates_of c) \<and>
            set (dates_of c) = {k. \<exists>e\<in>set [ex_year, ex_dated]. category ?E e = Some c \<and> date_key e = Some k}"
    and fb: "files (snd (main ?E [S ''bib/b.bib'', S ''bib/a.bib''] (S ''pdf/'')
                 (S ''p.tsv'') (S ''p.bib'') (S ''p.html'') ex_world2)) (S ''p.bib'')
           = Some (Text (concat (map (\<lambda>c.
               replicate 60 37 @ [10] @ S ''% '' @ c @ [10] @ replicate 60 37 @ [10] @
               concat (map (\<lambda>k. writer_write ?E
                                   (filter (\<lambda>e. category ?E e = Some c \<and> date_key e = Some k) [ex_year, ex_dated]))
                         (dates_of c))) cats)))"
    by (elim exE conjE)
  from sc have "set cats = set [S ''article'']"
    by (auto simp: ex_categories)
  from strict_asc_unique [OF asc _ this] have cats: "cats = [S ''article'']" by simp
  from dof have d1: "sorted_wrt (\<lambda>a b. b < a) (dates_of (S ''article''))"
    and d2: "set (dates_of (S ''article'')) = {k. \<exists>e\<in>set [ex_year, ex_dated]. category ?E e = Some (S ''article'') \<and> date_key e = Some k}"
    unfolding cats by simp_all
  from d2 have "set (dates_of (S ''article'')) = set [S ''2021-03'', S ''2020'']"
    by (auto simp: ex_date_keys ex_categories)
  from strict_desc_unique [OF d1 ex_dates_desc this]
  have dts: "dates_of (S ''article'') = [S ''2021-03'', S ''2020'']" .
  have neq: "S ''2020'' \<noteq> S ''2021-03''" by (simp add: S_Nil S_Cons)
  have f1: "filter (\<lambda>e. category ?E e = Some (S ''article'') \<and> date_key e = Some (S ''2021-03'')) [ex_year, ex_dated] = [ex_dated]"
    using neq by (simp add: ex_date_keys ex_categories)
  have f2: "filter (\<lambda>e. category ?E e = Some (S ''article'') \<and> date_key e = Some (S ''2020'')) [ex_year, ex_dated] = [ex_year]"
    using neq by (simp add: ex_date_keys ex_categories)
  have b3: "files (snd (main ?E [S ''bib/b.bib'', S ''bib/a.bib''] (S ''pdf/'')
                 (S ''p.tsv'') (S ''p.bib'') (S ''p.html'') ex_world2)) (S ''p.bib'')
     = Some (Text (replicate 60 37 @ [10] @ S ''% '' @ S ''article'' @ [10] @ replicate 60 37 @ [10]
                   @ writer_write ?E [ex_dated] @ writer_write ?E [ex_year]))"
    unfolding fb cats list.map concat.simps dts f1 f2 by simp
  have l2: "list_all (\<lambda>e. date_key e \<noteq> None) [ex_year, ex_dated]"
    by (simp add: ex_date_keys)
  have l3: "list_all (\<lambda>e. category ?E e \<noteq> None \<and> date_key e \<noteq> None) [ex_year, ex_dated]"
    by (simp add: ex_date_keys ex_categories)
  show ?thesis
    apply (intro conjI)
    apply (fact h1)
    apply (fact a1)
    apply (fact a2)
    apply (fact a3)
    apply (fact l2)
    apply (fact od')
    apply (fact b1)
    apply (fact b2)
    apply (fact ex_read2)
    apply (fact l3)
    apply (fact ne)
    apply (fact b3)
    done
qed

section \<open>The classifier with another ordering mode\<close>

lemma order_db_loop_other:
  "order \<noteq> S ''ENTRYTYPE'' \<Longrightarrow> order \<noteq> S ''date'' \<Longrightarrow> order_db_loop E db order col = Inr col"
  by (induction db) simp_all

text \<open>
  C10. For every database and every ordering mode other than \<open>"ENTRYTYPE"\<close> and
  \<open>"date"\<close>, \<open>order_db\<close> returns the empty grouping: no entry is filed and no error is
  raised.
\<close>

theorem order_db_unknown_mode_empty:
  assumes "order \<noteq> S ''ENTRYTYPE''" and "order \<noteq> S ''date''"
  shows "order_db E db order = Inr []"
  unfolding order_db_def using assms by (rule order_db_loop_other)

theorem order_db_unknown_mode_empty_witness:
  "S ''year'' \<noteq> S ''ENTRYTYPE'' \<and> S ''year'' \<noteq> S ''date'' \<and>
   order_db (ascii_env [])
     [[(S ''ENTRYTYPE'', S ''article''), (S ''ID'', S ''k1''), (S ''year'', S ''2020'')],
      [(S ''ENTRYTYPE'', S ''misc''), (S ''ID'', S ''k2'')]] (S ''year'') = Inr []"
proof -
  have a: "S ''year'' \<noteq> S ''ENTRYTYPE''" and b: "S ''year'' \<noteq> S ''date''"
    by (simp_all add: S_def)
  show ?thesis using a b order_db_unknown_mode_empty [OF a b] by simp
qed

section \<open>Rendering a record that lacks a field\<close>

lemma getitem_Some: "map_of e k = Some v \<Longrightarrow> getitem e k = Inr v"
  by (simp add: getitem_def)

lemma article2html_missing:
  "find (\<lambda>k. map_of e k = None)
     [S ''volume'', S ''author'', S ''year'', S ''title'', S ''journal'', S ''pages''] = Some k
   \<Longrightarrow> article2html e = Inl (KeyError k)"
  by (auto simp: article2html_def getitem_def haskey_def split: if_splits)

lemma book2html_missing:
  "haskey e (S ''author'') \<or> haskey e (S ''editor'') \<Longrightarrow>
   find (\<lambda>k. map_of e k = None) [S ''year'', S ''title'', S ''address'', S ''publisher''] = Some k
   \<Longrightarrow> book2html e = Inl (KeyError k)"
  by (auto simp: book2html_def getitem_def haskey_def split: if_splits)

lemma inproceedings2html_missing:
  "find (\<lambda>k. map_of e k = None)
     [S ''author'', S ''year'', S ''title'', S ''booktitle'', S ''pages'', S ''address''] = Some k
   \<Longrightarrow> inproceedings2html e = Inl (KeyError k)"
  by (auto simp: inproceedings2html_def getitem_def split: if_splits)

lemma incollection2html_missing:
  "find (\<lambda>k. map_of e k = None)
     [S ''author'', S ''year'', S ''title'', S ''booktitle'', S ''editor'', S ''pages'',
      S ''address'', S ''publisher''] = Some k
   \<Longrightarrow> incollection2html e = Inl (KeyError k)"
  by (auto simp: incollection2html_def getitem_def split: if_splits)

lemma misc2html_missing:
  "find (\<lambda>k. map_of e k = None)
     [S ''author'', S ''year'', S ''title'', S ''howpublished''] = Some k
   \<Longrightarrow> misc2html e = Inl (KeyError k)"
  by (auto simp: misc2html_def getitem_def split: if_splits)

lemma bibtex2html_try_missing:
  assumes t: "map_of e (S ''ENTRYTYPE'') = Some t"
    and k: "find (\<lambda>k. map_of e k = None) (required_fields t) = Some k"
    and b: "t = S ''book'' \<or> t = S ''proceedings'' \<Longrightarrow> haskey e (S ''author'') \<or> haskey e (S ''editor'')"
  shows "bibtex2html_try e = Inl (KeyError k)"
proof -
  have g: "getitem e (S ''ENTRYTYPE'') = Inr t" by (rule getitem_Some [OF t])
  consider "t = S ''article''" | "t = S ''book'' \<or> t = S ''proceedings''" | "t = S ''inproceedings''"
    | "t = S ''incollection''" | "t = S ''misc''"
    using k by (auto simp: required_fields_def split: if_splits)
  then show ?thesis
  proof cases
    case 1
    with k have "article2html e = Inl (KeyError k)"
      by (intro article2html_missing) (simp add: required_fields_def)
    with 1 g show ?thesis by (simp add: bibtex2html_try_def)
  next
    case 2
    have na: "S ''book'' \<noteq> S ''article''" "S ''proceedings'' \<noteq> S ''article''"
      by (simp_all add: S_Nil S_Cons)
    have "required_fields t = [S ''year'', S ''title'', S ''address'', S ''publisher'']"
      using 2 na by (cases "t = S ''book''") (simp_all add: required_fields_def)
    with k have "find (\<lambda>k. map_of e k = None) [S ''year'', S ''title'', S ''address'', S ''publisher''] = Some k"
      by simp
    with b [OF 2] have "book2html e = Inl (KeyError k)"
      by (rule book2html_missing)
    with 2 g na show ?thesis by (auto simp: bibtex2html_try_def)
  next
    case 3
    have na: "S ''inproceedings'' \<noteq> S ''article''" "S ''inproceedings'' \<noteq> S ''book''"
      "S ''inproceedings'' \<noteq> S ''proceedings''"
      by (simp_all add: S_Nil S_Cons)
    from 3 k na have "inproceedings2html e = Inl (KeyError k)"
      by (intro inproceedings2html_missing) (simp add: required_fields_def)
    with 3 g na show ?thesis by (simp add: bibtex2html_try_def)
  next
    case 4
    have na: "S ''incollection'' \<noteq> S ''article''" "S ''incollection'' \<noteq> S ''book''"
      "S ''incollection'' \<noteq> S ''proceedings''" "S ''incollection'' \<noteq> S ''inproceedings''"
      by (simp_all add: S_Nil S_Cons)
    from 4 k na have "incollection2html e = Inl (KeyError k)"
      by (intro incollection2html_missing) (simp add: required_fields_def)
    with 4 g na show ?thesis by (simp add: bibtex2html_try_def)
  next
    case 5
    have na: "S ''misc'' \<noteq> S ''article''" "S ''misc'' \<noteq> S ''book''"
      "S ''misc'' \<noteq> S ''proceedings''" "S ''misc'' \<noteq> S ''inproceedings''"
      "S ''misc'' \<noteq> S ''incollection''"
      by (simp_all add: S_Nil S_Cons)
    from 5 k na have "misc2html e = Inl (KeyError k)"
      by (intro misc2html_missing) (simp add: required_fields_def)
    with 5 g na show ?thesis by (simp add: bibtex2html_try_def)
  qed
qed

text \<open>
  C2 (amended). When a record has the entry type of a renderer and lacks a field that
  the renderer looks up (for a book or proceedings, given an author or an editor),
  \<open>bibtex2html\<close> prints the record and raises \<open>NotImplementedError\<close> with the fixed
  message \<open>can't deal with this\<close>. The error names the first missing field only through
  the \<open>KeyError\<close> it was raised from, and it does not hold the id of the record.
\<close>

theorem bibtex2html_missing_field:
  assumes "map_of e (S ''ENTRYTYPE'') = Some t"
    and "find (\<lambda>k. map_of e k = None) (required_fields t) = Some k"
    and "t = S ''book'' \<or> t = S ''proceedings'' \<Longrightarrow> haskey e (S ''author'') \<or> haskey e (S ''editor'')"
  shows "bibtex2html e pdf_dir w =
           (Inl (NotImplementedError (S ''can'' @ [39] @ S ''t deal with this'') (Some (KeyError k))),
            print (PrintEntry e) w)"
  using bibtex2html_try_missing [OF assms] by (simp add: bibtex2html_def)


theorem bibtex2html_missing_field_witness:
  "map_of (ex_nopages (S ''smith2020'')) (S ''ENTRYTYPE'') = Some (S ''article'') \<and>
   find (\<lambda>k. map_of (ex_nopages (S ''smith2020'')) k = None) (required_fields (S ''article''))
     = Some (S ''pages'') \<and>
   bibtex2html (ex_nopages (S ''smith2020'')) (S ''pdf/'') ex_nofiles =
     (Inl (NotImplementedError (S ''can'' @ [39] @ S ''t deal with this'')
            (Some (KeyError (S ''pages'')))),
      print (PrintEntry (ex_nopages (S ''smith2020''))) ex_nofiles) \<and>
   map_of ex_book (S ''ENTRYTYPE'') = Some (S ''book'') \<and>
   find (\<lambda>k. map_of ex_book k = None) (required_fields (S ''book'')) = Some (S ''publisher'') \<and>
   haskey ex_book (S ''editor'') \<and>
   bibtex2html ex_book (S ''pdf/'') ex_nofiles =
     (Inl (NotImplementedError (S ''can'' @ [39] @ S ''t deal with this'')
            (Some (KeyError (S ''publisher'')))),
      print (PrintEntry ex_book) ex_nofiles)"
proof -
  have a1: "map_of (ex_nopages (S ''smith2020'')) (S ''ENTRYTYPE'') = Some (S ''article'')"
    by (simp add: ex_nopages_def)
  have a2: "find (\<lambda>k. map_of (ex_nopages (S ''smith2020'')) k = None) (required_fields (S ''article''))
     = Some (S ''pages'')"
    by (simp add: ex_nopages_def required_fields_def S_Nil S_Cons)
  have a3: "S ''article'' = S ''book'' \<or> S ''article'' = S ''proceedings'' \<Longrightarrow>
      haskey (ex_nopages (S ''smith2020'')) (S ''author'') \<or> haskey (ex_nopages (S ''smith2020'')) (S ''editor'')"
    by (simp add: S_Nil S_Cons)
  have b1: "map_of ex_book (S ''ENTRYTYPE'') = Some (S ''book'')"
    by (simp add: ex_book_def)
  have b2: "find (\<lambda>k. map_of ex_book k = None) (required_fields (S ''book'')) = Some (S ''publisher'')"
    by (simp add: ex_book_def required_fields_def S_Nil S_Cons)
  have b3: "haskey ex_book (S ''editor'')"
    by (simp add: ex_book_def haskey_def S_Nil S_Cons)
  note a = bibtex2html_missing_field [OF a1 a2 a3, of "S ''pdf/''" ex_nofiles]
  note b = bibtex2html_missing_field [OF b1 b2, of "S ''pdf/''" ex_nofiles]
  from a1 a2 a b1 b2 b3 b show ?thesis by blast
qed

text \<open>The claim as the specification states it fails: two articles without \<open>pages\<close>
  and with different ids raise the same error, which names neither id.\<close>

theorem bibtex2html_missing_field_counterexample:
  "map_of (ex_nopages (S ''smith2020'')) (S ''ID'') = Some (S ''smith2020'') \<and>
   map_of (ex_nopages (S ''doe2019'')) (S ''ID'') = Some (S ''doe2019'') \<and>
   fst (bibtex2html (ex_nopages (S ''smith2020'')) (S ''pdf/'') ex_nofiles)
     = Inl (NotImplementedError (S ''can'' @ [39] @ S ''t deal with this'')
             (Some (KeyError (S ''pages'')))) \<and>
   fst (bibtex2html (ex_nopages (S ''doe2019'')) (S ''pdf/'') ex_nofiles)
     = Inl (NotImplementedError (S ''can'' @ [39] @ S ''t deal with this'')
             (Some (KeyError (S ''pages''))))"
  by (simp add: bibtex2html_def bibtex2html_try_def article2html_def getitem_def haskey_def
        ex_nopages_def S_Nil S_Cons)

section \<open>Braces in a rendered citation\<close>

lemma in_replace_iff:
  "c \<notin> set old \<Longrightarrow> c \<notin> set new \<Longrightarrow> c \<in> set (replace s old new) \<longleftrightarrow> c \<in> set s"
proof (induction s old new rule: replace.induct)
  case (1 old new)
  then show ?case by simp
next
  case (2 x xs old new)
  show ?case
  proof (cases "old \<noteq> [] \<and> prefix old (x # xs)")
    case True
    then obtain zs where zs: "x # xs = old @ zs" by (auto simp: prefix_def)
    then have d: "drop (length old) (x # xs) = zs" by (metis append_eq_conv_conj)
    from True 2 have "c \<in> set (replace (drop (length old) (x # xs)) old new)
        \<longleftrightarrow> c \<in> set (drop (length old) (x # xs))"
      by simp
    then have "c \<in> set (replace (drop (length old) (x # xs)) old new) \<longleftrightarrow> c \<in> set zs"
      unfolding d .
    moreover have "c \<in> set zs \<longleftrightarrow> c \<in> set (x # xs)"
      unfolding zs using 2(4) by simp
    moreover have "replace (x # xs) old new = new @ replace (drop (length old) (x # xs)) old new"
      using True by simp
    ultimately show ?thesis
      using 2(5) by simp
  next
    case False
    with 2 show ?thesis by auto
  qed
qed

lemma has_brace_replace:
  "\<not> has_brace old \<Longrightarrow> \<not> has_brace new \<Longrightarrow> has_brace (replace s old new) \<longleftrightarrow> has_brace s"
  by (simp add: has_brace_def in_replace_iff)

lemma has_brace_append [simp]: "has_brace (a @ b) \<longleftrightarrow> has_brace a \<or> has_brace b"
  by (auto simp: has_brace_def)

lemma has_brace_unescape: "has_brace (unescape s) \<longleftrightarrow> has_brace s"
proof -
  have "\<not> has_brace (S ''``'')" "\<not> has_brace (S ''&ldquo;'')" "\<not> has_brace [39, 39]"
    "\<not> has_brace (S ''&rdquo;'')" "\<not> has_brace [92, 95]" "\<not> has_brace (S ''_'')"
    "\<not> has_brace [92, 38]" "\<not> has_brace (S ''&'')"
    by (simp_all add: has_brace_def S_Nil S_Cons)
  then show ?thesis
    by (simp add: unescape_def has_brace_replace)
qed

lemma has_brace_re_sub_braces [simp]: "\<not> has_brace (re_sub_braces s)"
  by (auto simp: has_brace_def re_sub_braces_def)

lemma has_brace_links:
  \<open>has_brace (foldl (\<lambda>out (key, path).
                 if isfile w path
                 then out @ S '', <a href="'' @ path @ S ''">'' @ key @ S ''</a>''
                 else out) out rs)
   \<longleftrightarrow> has_brace out \<or> (\<exists>(key, path)\<in>set rs. isfile w path \<and> (has_brace path \<or> has_brace key))\<close>
proof -
  have l: \<open>\<not> has_brace (S '', <a href="'')\<close> \<open>\<not> has_brace (S ''">'')\<close> \<open>\<not> has_brace (S ''</a>'')\<close>
    by (simp_all add: has_brace_def S_Nil S_Cons)
  show ?thesis
  proof (induction rs arbitrary: out)
    case Nil
    show ?case by simp
  next
    case (Cons r rs)
    obtain key path where r: "r = (key, path)" by (cases r)
    show ?case
      unfolding r foldl_Cons Cons.IH
      by (cases "isfile w path") (auto simp: l)
  qed
qed

lemma has_brace_res:
  "(\<exists>(key, path)\<in>set (res pdf_dir ident). isfile w path \<and> (has_brace path \<or> has_brace key))
   \<longleftrightarrow> (has_brace pdf_dir \<or> has_brace ident) \<and> (\<exists>path\<in>set (map snd (res pdf_dir ident)). isfile w path)"
proof -
  have l: "\<not> has_brace (S ''abstract'')" "\<not> has_brace (S ''pdf'')" "\<not> has_brace (S ''slides'')"
    "\<not> has_brace (S ''poster'')" "\<not> has_brace (S ''_abstract.pdf'')" "\<not> has_brace (S ''.pdf'')"
    "\<not> has_brace (S ''_slides.pdf'')" "\<not> has_brace (S ''_poster.pdf'')"
    by (simp_all add: has_brace_def S_Nil S_Cons)
  show ?thesis
    by (auto simp: res_def l)
qed

lemma bibtex2html_braces:
  assumes "bibtex2html e pdf_dir w = (Inr out, w')"
  shows "\<exists>ident. map_of e (S ''ID'') = Some ident \<and> w' = w \<and>
           (has_brace out \<longleftrightarrow>
              has_brace ident \<or>
              (\<exists>u. map_of e (S ''url'') = Some u \<and> has_brace u) \<or>
              (has_brace pdf_dir \<and> (\<exists>path\<in>set (map snd (res pdf_dir ident)). isfile w path)))"
proof -
  from assms obtain out0 where tr: "bibtex2html_try e = Inr out0"
    by (cases "bibtex2html_try e" rule: sum.exhaust [case_names Inl Inr])
       (auto simp: bibtex2html_def split: error.splits)
  with assms obtain ident where ident: "map_of e (S ''ID'') = Some ident"
    by (cases "map_of e (S ''ID'')") (auto simp: bibtex2html_def getitem_def)
  have l: \<open>\<not> has_brace (S '' ['')\<close> \<open>\<not> has_brace (S ''<a href="'')\<close> \<open>\<not> has_brace (S ''/'')\<close>
    \<open>\<not> has_brace (S ''bib'')\<close> \<open>\<not> has_brace (S ''.bib'')\<close> \<open>\<not> has_brace (S ''">bib</a>'')\<close>
    \<open>\<not> has_brace (S '', <a href="'')\<close> \<open>\<not> has_brace (S ''">web</a>'')\<close> \<open>\<not> has_brace (S '']'')\<close>
    \<open>\<not> has_brace [10]\<close>
    by (simp_all add: has_brace_def S_Nil S_Cons)
  from assms tr ident have w: "w' = w"
    by (simp add: bibtex2html_def getitem_def Let_def)
  define out2 where \<open>out2 = re_sub_braces out0 @ S '' ['' @ S ''<a href="''
      @ join (S ''/'') [S ''bib'', ident @ S ''.bib''] @ S ''">bib</a>''\<close>
  define out3 where \<open>out3 = (if haskey e (S ''url'')
      then out2 @ S '', <a href="'' @ the (map_of e (S ''url'')) @ S ''">web</a>'' else out2)\<close>
  define out4 where \<open>out4 = foldl (\<lambda>out (key, path).
      if isfile w path then out @ S '', <a href="'' @ path @ S ''">'' @ key @ S ''</a>'' else out)
      out3 (res pdf_dir ident)\<close>
  from assms tr ident have out: "out = unescape (out4 @ S '']'' @ [10])"
    by (auto simp: bibtex2html_def getitem_def Let_def out4_def out3_def out2_def cong: if_cong)
  have b2: "has_brace out2 \<longleftrightarrow> has_brace ident"
    by (simp add: out2_def l)
  have b3: "has_brace out3 \<longleftrightarrow> has_brace ident \<or> (\<exists>u. map_of e (S ''url'') = Some u \<and> has_brace u)"
    by (cases "map_of e (S ''url'')") (simp_all add: out3_def haskey_def b2 l)
  have b4: "has_brace out4 \<longleftrightarrow> has_brace out3 \<or>
      ((has_brace pdf_dir \<or> has_brace ident) \<and> (\<exists>path\<in>set (map snd (res pdf_dir ident)). isfile w path))"
    unfolding out4_def has_brace_links has_brace_res ..
  have "has_brace out \<longleftrightarrow> has_brace out4"
    unfolding out has_brace_unescape by (simp add: l)
  with b3 b4 have
    "has_brace out \<longleftrightarrow>
       has_brace ident \<or> (\<exists>u. map_of e (S ''url'') = Some u \<and> has_brace u) \<or>
       (has_brace pdf_dir \<and> (\<exists>path\<in>set (map snd (res pdf_dir ident)). isfile w path))"
    by blast
  with ident w show ?thesis by blast
qed


lemma ex_talk_html:
  \<open>bibtex2html ex_talk (S ''pdf/'') ex_nofiles =
     (Inr (S ''Doe, J. (2020). <b>Talk</b>. <i>H</i>. [<a href="bib/k1.bib">bib</a>, <a href="http://x.org/{a}">web</a>]'' @ [10]),
      ex_nofiles)\<close>
  by (simp add: bibtex2html_def bibtex2html_try_def misc2html_def getitem_def haskey_def
        ex_talk_def ex_nofiles_def author2html_def special_default_def re_sub_braces_def
        res_def isfile_def unescape_def S_Nil S_Cons)

text \<open>
  C7 (amended). The braces are removed from the citation before the links are
  appended, and unescaping neither adds nor removes a brace. So a rendered string
  holds a brace exactly when the id of the record holds one, or its \<open>url\<close> does, or
  the asset directory does and one of the four asset files exists.
\<close>

theorem bibtex2html_braces_only_from_links:
  assumes "bibtex2html e pdf_dir w = (Inr out, w')"
  shows "\<exists>ident. map_of e (S ''ID'') = Some ident \<and>
           (has_brace out \<longleftrightarrow>
              has_brace ident \<or>
              (\<exists>u. map_of e (S ''url'') = Some u \<and> has_brace u) \<or>
              (has_brace pdf_dir \<and> (\<exists>path\<in>set (map snd (res pdf_dir ident)). isfile w path)))"
  using bibtex2html_braces [OF assms] by blast


theorem bibtex2html_braces_only_from_links_witness:
  \<open>bibtex2html ex_talk (S ''pdf/'') ex_nofiles =
     (Inr (S ''Doe, J. (2020). <b>Talk</b>. <i>H</i>. [<a href="bib/k1.bib">bib</a>, <a href="http://x.org/{a}">web</a>]'' @ [10]),
      ex_nofiles) \<and>
   (\<exists>ident. map_of ex_talk (S ''ID'') = Some ident \<and>
      (has_brace (S ''Doe, J. (2020). <b>Talk</b>. <i>H</i>. [<a href="bib/k1.bib">bib</a>, <a href="http://x.org/{a}">web</a>]'' @ [10]) \<longleftrightarrow>
         has_brace ident \<or>
         (\<exists>u. map_of ex_talk (S ''url'') = Some u \<and> has_brace u) \<or>
         (has_brace (S ''pdf/'') \<and>
          (\<exists>path\<in>set (map snd (res (S ''pdf/'') ident)). isfile ex_nofiles path))))\<close>
  using ex_talk_html bibtex2html_braces_only_from_links [OF ex_talk_html] by (rule conjI)

text \<open>The claim as the specification states it fails: the braces of a \<open>url\<close> reach the
  rendered string.\<close>

theorem bibtex2html_braces_only_from_links_counterexample:
  \<open>fst (bibtex2html ex_talk (S ''pdf/'') ex_nofiles) =
     Inr (S ''Doe, J. (2020). <b>Talk</b>. <i>H</i>. [<a href="bib/k1.bib">bib</a>, <a href="http://x.org/{a}">web</a>]'' @ [10]) \<and>
   123 \<in> set (S ''Doe, J. (2020). <b>Talk</b>. <i>H</i>. [<a href="bib/k1.bib">bib</a>, <a href="http://x.org/{a}">web</a>]'' @ [10]) \<and>
   125 \<in> set (S ''Doe, J. (2020). <b>Talk</b>. <i>H</i>. [<a href="bib/k1.bib">bib</a>, <a href="http://x.org/{a}">web</a>]'' @ [10])\<close>
  unfolding ex_talk_html by (simp add: S_Nil S_Cons)

section \<open>Rendering authors\<close>

lemma replace_none: "\<not> sublist old s \<Longrightarrow> replace s old new = s"
proof (induction s)
  case Nil
  then have "old \<noteq> []" by auto
  then show ?case by simp
next
  case (Cons x s)
  then have "old \<noteq> []" by auto
  moreover from Cons.prems have "\<not> prefix old (x # s)" "\<not> sublist old s"
    by (auto simp: sublist_Cons_right)
  ultimately show ?case using Cons.IH by simp
qed

lemma prefix_into_occurrence:
  assumes p: "prefix old (u @ old @ b)" and u: "u \<noteq> []"
  shows "prefix old (u @ butlast old)"
proof (cases "old = []")
  case True
  then show ?thesis by simp
next
  case False
  define m where "m = length old - length u"
  have m: "m < length old"
    unfolding m_def using False u by (cases u) auto
  have "take m (old @ b) = take m old"
    using m by simp
  also have "\<dots> = take m (butlast old)"
    using m by (simp add: take_butlast)
  finally have t: "take m (old @ b) = take m (butlast old)" .
  from p obtain zs where "u @ old @ b = old @ zs"
    by (auto simp: prefix_def)
  then have "take (length old) (u @ old @ b) = take (length old) (old @ zs)"
    by (rule arg_cong)
  then have "old = take (length old) (u @ old @ b)"
    by simp
  also have "\<dots> = take (length old) u @ take m (old @ b)"
    unfolding m_def by (rule take_append)
  also have "\<dots> = take (length old) u @ take m (butlast old)"
    unfolding t ..
  also have "\<dots> = take (length old) (u @ butlast old)"
    unfolding m_def by (rule take_append [symmetric])
  finally have "old = take (length old) (u @ butlast old)" .
  then show ?thesis
    by (metis take_is_prefix)
qed

lemma replace_occurrence:
  "old \<noteq> [] \<Longrightarrow> \<not> sublist old (a @ butlast old) \<Longrightarrow>
   replace (a @ old @ b) old new = a @ new @ replace b old new"
proof (induction a)
  case Nil
  then obtain c cs where eq: "old @ b = c # cs" by (cases "old @ b") auto
  have p: "prefix old (c # cs)" unfolding eq [symmetric] by simp
  have d: "drop (length old) (c # cs) = b" unfolding eq [symmetric] by simp
  have "replace (c # cs) old new = new @ replace b old new"
    using Nil(1) p d by simp
  then show ?case using eq by simp
next
  case (Cons x a)
  have np: "\<not> prefix old (x # a @ old @ b)"
  proof
    assume "prefix old (x # a @ old @ b)"
    then have "prefix old ((x # a) @ old @ b)" by simp
    then have "prefix old ((x # a) @ butlast old)"
      by (rule prefix_into_occurrence) simp
    then have "sublist old ((x # a) @ butlast old)" by (rule prefix_imp_sublist)
    with Cons.prems(2) show False by simp
  qed
  from Cons.prems(2) have "\<not> sublist old (a @ butlast old)"
    by (simp add: sublist_Cons_right)
  with Cons.IH Cons.prems(1) have "replace (a @ old @ b) old new = a @ new @ replace b old new"
    by simp
  with np Cons.prems(1) show ?case by simp
qed

lemma author2html_Nil: "author2html a [] = replace a (S '' and '') (S ''; '')"
  by (simp add: author2html_def)

lemma author2html_snoc:
  "author2html a (special @ [s]) = replace (author2html a special) s (S ''<u>'' @ s @ S ''</u>'')"
  by (simp add: author2html_def)

lemma ex_author:
  "author2html (S ''Smith, J. and Heinrich, Philipp'') special_default
     = S ''Smith, J.; <u>Heinrich, Philipp</u>''"
  by (simp add: author2html_def special_default_def S_Nil S_Cons)

lemma ex_author_longer:
  "author2html (S ''Heinrich, P. J. and Smith, J.'') special_default
     = S ''<u>Heinrich, P.</u> J.; Smith, J.''"
  by (simp add: author2html_def special_default_def S_Nil S_Cons)

text \<open>
  C8 (amended). \<open>author2html\<close> replaces the occurrences of \<open>" and "\<close> by \<open>"; "\<close>,
  from the left and without overlap, and then takes the special names in turn: in
  the string made so far it wraps the occurrences of the name, from the left and
  without overlap, in \<open><u>\<close> and \<open></u>\<close>, whatever stands before and after them, and
  leaves a string without the name as it is. Under the default special names
  \<open>Smith, J. and Heinrich, Philipp\<close> becomes \<open>Smith, J.; <u>Heinrich, Philipp</u>\<close>.
\<close>

theorem author2html_occurrences:
  "(\<not> sublist (S '' and '') a \<longrightarrow> author2html a [] = a) \<and>
   (\<not> sublist (S '' and '') (a @ S '' and'') \<longrightarrow>
      author2html (a @ S '' and '' @ b) [] = a @ S ''; '' @ author2html b []) \<and>
   (\<not> sublist s (author2html x special) \<longrightarrow>
      author2html x (special @ [s]) = author2html x special) \<and>
   (s \<noteq> [] \<and> author2html x special = pre @ s @ post \<and> \<not> sublist s (pre @ butlast s) \<longrightarrow>
      author2html x (special @ [s])
        = pre @ (S ''<u>'' @ s @ S ''</u>'') @ replace post s (S ''<u>'' @ s @ S ''</u>'')) \<and>
   author2html (S ''Smith, J. and Heinrich, Philipp'') special_default
     = S ''Smith, J.; <u>Heinrich, Philipp</u>''"
proof (intro conjI impI)
  show "author2html a [] = a" if "\<not> sublist (S '' and '') a"
    unfolding author2html_Nil using that by (rule replace_none)
  have bl: "butlast (S '' and '') = S '' and''" and ne: "S '' and '' \<noteq> []"
    by (simp_all add: S_Nil S_Cons)
  show "author2html (a @ S '' and '' @ b) [] = a @ S ''; '' @ author2html b []"
    if "\<not> sublist (S '' and '') (a @ S '' and'')"
    unfolding author2html_Nil using that
    by (intro replace_occurrence [OF ne]) (simp add: bl)
  show "author2html x (special @ [s]) = author2html x special"
    if "\<not> sublist s (author2html x special)"
    unfolding author2html_snoc using that by (rule replace_none)
  show "author2html x (special @ [s])
        = pre @ (S ''<u>'' @ s @ S ''</u>'') @ replace post s (S ''<u>'' @ s @ S ''</u>'')"
    if "s \<noteq> [] \<and> author2html x special = pre @ s @ post \<and> \<not> sublist s (pre @ butlast s)"
    unfolding author2html_snoc using that by (simp add: replace_occurrence)
  show "author2html (S ''Smith, J. and Heinrich, Philipp'') special_default
     = S ''Smith, J.; <u>Heinrich, Philipp</u>''"
    by (rule ex_author)
qed


theorem author2html_occurrences_witness:
  "\<not> sublist (S '' and '') (S ''Smith, J.'') \<and>
   author2html (S ''Smith, J.'') [] = S ''Smith, J.'' \<and>
   \<not> sublist (S '' and '') (S ''Smith, J.'' @ S '' and'') \<and>
   author2html (S ''Smith, J.'' @ S '' and '' @ S ''Heinrich, Philipp'') []
     = S ''Smith, J.'' @ S ''; '' @ author2html (S ''Heinrich, Philipp'') [] \<and>
   \<not> sublist (S ''Heinrich, P.'') (author2html (S ''Smith, J.'') []) \<and>
   author2html (S ''Smith, J.'') ([] @ [S ''Heinrich, P.'']) = author2html (S ''Smith, J.'') [] \<and>
   S ''Heinrich, P.'' \<noteq> [] \<and>
   author2html (S ''Heinrich, P. J.'') [] = [] @ S ''Heinrich, P.'' @ S '' J.'' \<and>
   \<not> sublist (S ''Heinrich, P.'') ([] @ butlast (S ''Heinrich, P.'')) \<and>
   author2html (S ''Heinrich, P. J.'') ([] @ [S ''Heinrich, P.''])
     = [] @ (S ''<u>'' @ S ''Heinrich, P.'' @ S ''</u>'')
         @ replace (S '' J.'') (S ''Heinrich, P.'') (S ''<u>'' @ S ''Heinrich, P.'' @ S ''</u>'')"
proof -
  have h1: "\<not> sublist (S '' and '') (S ''Smith, J.'')"
    by (simp add: S_Nil S_Cons sublist_Cons_right)
  have h2: "\<not> sublist (S '' and '') (S ''Smith, J.'' @ S '' and'')"
    by (simp add: S_Nil S_Cons sublist_Cons_right)
  have n: "author2html (S ''Smith, J.'') [] = S ''Smith, J.''"
    by (simp add: author2html_def S_Nil S_Cons)
  have h3: "\<not> sublist (S ''Heinrich, P.'') (author2html (S ''Smith, J.'') [])"
    unfolding n by (simp add: S_Nil S_Cons sublist_Cons_right)
  have h4: "S ''Heinrich, P.'' \<noteq> []"
    "author2html (S ''Heinrich, P. J.'') [] = [] @ S ''Heinrich, P.'' @ S '' J.''"
    "\<not> sublist (S ''Heinrich, P.'') ([] @ butlast (S ''Heinrich, P.''))"
    by (simp_all add: author2html_def S_Nil S_Cons sublist_Cons_right)
  note t1 = author2html_occurrences [of "S ''Smith, J.''" "S ''Heinrich, Philipp''"
      "S ''Heinrich, P.''" "S ''Smith, J.''" "[]" "[]" "S '' J.''"]
  note t2 = author2html_occurrences [of "S ''Smith, J.''" "S ''Heinrich, Philipp''"
      "S ''Heinrich, P.''" "S ''Heinrich, P. J.''" "[]" "[]" "S '' J.''"]
  from t1 h1 h2 h3 have c1:
    "author2html (S ''Smith, J.'') [] = S ''Smith, J.''"
    "author2html (S ''Smith, J.'' @ S '' and '' @ S ''Heinrich, Philipp'') []
       = S ''Smith, J.'' @ S ''; '' @ author2html (S ''Heinrich, Philipp'') []"
    "author2html (S ''Smith, J.'') ([] @ [S ''Heinrich, P.'']) = author2html (S ''Smith, J.'') []"
    by blast+
  from t2 h4 have c2:
    "author2html (S ''Heinrich, P. J.'') ([] @ [S ''Heinrich, P.''])
     = [] @ (S ''<u>'' @ S ''Heinrich, P.'' @ S ''</u>'')
         @ replace (S '' J.'') (S ''Heinrich, P.'') (S ''<u>'' @ S ''Heinrich, P.'' @ S ''</u>'')"
    by blast
  from h1 h2 h3 h4 c1 c2 show ?thesis by blast
qed

text \<open>The claim as the specification states it fails: the author \<open>Heinrich, P. J.\<close>
  is not a special name, and a part of it is underlined.\<close>

theorem author2html_occurrences_counterexample:
  "S ''Heinrich, P. J.'' \<notin> set special_default \<and>
   author2html (S ''Heinrich, P. J. and Smith, J.'') special_default
     = S ''<u>Heinrich, P.</u> J.; Smith, J.''"
proof -
  have "S ''Heinrich, P. J.'' \<notin> set special_default"
    by (simp add: special_default_def S_Nil S_Cons)
  with ex_author_longer show ?thesis by simp
qed

section \<open>The normalizer on page ranges\<close>

lemma isdash_not_space: "isdash c \<Longrightarrow> \<not> isspace c"
  by (auto simp: isdash_def isspace_def)

lemma isspace_newline [simp]: "isspace 10"
  by (simp add: isspace_def)

lemma not_isdash_newline [simp]: "\<not> isdash 10"
  by (simp add: isdash_def)

lemma dash_space_facts [simp]: "isdash 45" "isdash 8211" "\<not> isspace 45" "\<not> isspace 8211" "isspace 32" "\<not> isdash 32"
  by (simp_all add: isdash_def isspace_def)

lemma dropWhile_hd: "xs = [] \<or> \<not> P (hd xs) \<Longrightarrow> dropWhile P xs = xs"
  by (cases xs) auto

subsection \<open>Newlines\<close>

lemma newline_notin_re_sub_newlines: "10 \<notin> set (re_sub_newlines s)"
  by (induction s rule: re_sub_newlines.induct) auto

lemma re_sub_newlines_id: "10 \<notin> set s \<Longrightarrow> re_sub_newlines s = s"
  by (induction s) auto

lemma re_sub_newlines_idem: "re_sub_newlines (re_sub_newlines s) = re_sub_newlines s"
  by (rule re_sub_newlines_id [OF newline_notin_re_sub_newlines])

lemma re_sub_newlines_append_clean:
  "10 \<notin> set a \<Longrightarrow> re_sub_newlines (a @ s) = a @ re_sub_newlines s"
  by (induction a) auto

subsection \<open>Dashes\<close>

lemma re_sub_hyphen_clean: "45 \<notin> set a \<Longrightarrow> re_sub_hyphen a = a"
  by (induction a) (auto simp: re_sub_hyphen_def)

lemma re_sub_hyphen_append [simp]: "re_sub_hyphen (a @ b) = re_sub_hyphen a @ re_sub_hyphen b"
  by (simp add: re_sub_hyphen_def)

lemma hyphen_notin_re_sub_hyphen: "45 \<notin> set (re_sub_hyphen s)"
  by (auto simp: re_sub_hyphen_def)

lemma pages_not_title: "S ''pages'' \<noteq> S ''title''" "S ''pages'' \<noteq> S ''booktitle''"
  by (simp_all add: S_Nil S_Cons)

lemma formatter_key_pages:
  "formatter_key E (S ''pages'') v = re_sub_hyphen (re_sub_dashes (re_sub_newlines v))"
  by (simp add: formatter_key_def pages_not_title)

section \<open>The normalizer applied twice\<close>

subsection \<open>Titles\<close>

lemma str_split_not_Nil [simp]: "str_split s sep \<noteq> []"
  by (induction s) auto

lemma join_Cons: "xs \<noteq> [] \<Longrightarrow> join sep (x # xs) = x @ sep @ join sep xs"
  by (cases xs) auto

lemma join_str_split: "join [sep] (str_split s sep) = s"
proof (induction s)
  case Nil
  show ?case by simp
next
  case (Cons c s)
  obtain t ts where ts: "str_split s sep = t # ts"
    by (cases "str_split s sep") auto
  show ?case
  proof (cases "c = sep")
    case True
    with Cons show ?thesis by (simp add: join_Cons)
  next
    case False
    with Cons ts show ?thesis by (cases ts) auto
  qed
qed

lemma set_str_split_all: "\<forall>t\<in>set (str_split s sep). set t \<subseteq> set s"
proof (induction s)
  case Nil
  show ?case by simp
next
  case (Cons c s)
  obtain u us where us: "str_split s sep = u # us"
    by (cases "str_split s sep") auto
  from Cons us have u: "set u \<subseteq> set s" and rest: "\<forall>t\<in>set us. set t \<subseteq> set s"
    by auto
  show ?case
  proof (cases "c = sep")
    case True
    with Cons show ?thesis by auto
  next
    case False
    then have "str_split (c # s) sep = (c # u) # us" by (simp add: us)
    with u rest show ?thesis by auto
  qed
qed

lemma set_str_split: "t \<in> set (str_split s sep) \<Longrightarrow> set t \<subseteq> set s"
  using set_str_split_all by blast

lemma re_sub_braces_join:
  "123 \<notin> set sep \<Longrightarrow> 125 \<notin> set sep \<Longrightarrow>
   re_sub_braces (join sep xs) = join sep (map re_sub_braces xs)"
  by (induction sep xs rule: join.induct) (auto simp: re_sub_braces_def filter_id_conv)

lemma re_sub_braces_protect: "re_sub_braces (protect E r) = re_sub_braces r"
  by (simp add: protect_def re_sub_braces_def S_Nil S_Cons)

lemma re_sub_braces_id: "123 \<notin> set s \<Longrightarrow> 125 \<notin> set s \<Longrightarrow> re_sub_braces s = s"
  by (auto simp: re_sub_braces_def filter_id_conv)

lemma braces_notin_re_sub_braces: "123 \<notin> set (re_sub_braces s)" "125 \<notin> set (re_sub_braces s)"
  by (auto simp: re_sub_braces_def)

lemma set_join: "set (join sep xs) \<subseteq> set sep \<union> \<Union> (set ` set xs)"
  by (induction sep xs rule: join.induct) auto

lemma set_protect: "set (protect E r) \<subseteq> set r \<union> {123, 125}"
  by (auto simp: protect_def S_Nil S_Cons)

lemma re_sub_braces_tokens:
  assumes "123 \<notin> set s" "125 \<notin> set s"
  shows "re_sub_braces (join [32] (map (protect E) (str_split s 32))) = s"
proof -
  have "map (re_sub_braces \<circ> protect E) (str_split s 32) = str_split s 32"
  proof (rule map_idI)
    fix t assume "t \<in> set (str_split s 32)"
    then have "set t \<subseteq> set s" by (rule set_str_split)
    with assms have "123 \<notin> set t" "125 \<notin> set t" by auto
    then show "(re_sub_braces \<circ> protect E) t = t"
      by (simp add: re_sub_braces_protect re_sub_braces_id)
  qed
  then show ?thesis
    by (simp add: re_sub_braces_join join_str_split)
qed

lemma newline_notin_tokens:
  assumes "10 \<notin> set s"
  shows "10 \<notin> set (join [32] (map (protect E) (str_split s 32)))"
proof
  assume "10 \<in> set (join [32] (map (protect E) (str_split s 32)))"
  with set_join [of "[32]" "map (protect E) (str_split s 32)"]
  obtain t where t: "t \<in> set (str_split s 32)" "10 \<in> set (protect E t)" by auto
  with set_protect [of E t] have "10 \<in> set t" by auto
  with set_str_split [OF t(1)] assms show False by auto
qed

lemma set_re_sub_braces: "set (re_sub_braces s) \<subseteq> set s"
  by (auto simp: re_sub_braces_def)

lemma formatter_key_title_idem:
  assumes "key = S ''title'' \<or> key = S ''booktitle''"
  shows "formatter_key E key (formatter_key E key v) = formatter_key E key v"
proof -
  have np: "key \<noteq> S ''pages''"
    using assms by (auto simp: S_Nil S_Cons)
  define s where "s = re_sub_braces (re_sub_newlines v)"
  have fk: "formatter_key E key x = join (S '' '') (map (protect E) (str_split (re_sub_braces (re_sub_newlines x)) 32))" for x
    using assms np by (auto simp: formatter_key_def Let_def)
  have sp: "S '' '' = [32]" by (simp add: S_Nil S_Cons)
  have s10: "10 \<notin> set s"
    unfolding s_def using set_re_sub_braces [of "re_sub_newlines v"] newline_notin_re_sub_newlines [of v]
    by auto
  have "re_sub_newlines (join [32] (map (protect E) (str_split s 32)))
          = join [32] (map (protect E) (str_split s 32))"
    by (rule re_sub_newlines_id [OF newline_notin_tokens [OF s10]])
  moreover have "re_sub_braces (join [32] (map (protect E) (str_split s 32))) = s"
    by (rule re_sub_braces_tokens) (simp_all add: s_def braces_notin_re_sub_braces)
  ultimately show ?thesis
    unfolding fk sp s_def [symmetric] by simp
qed

lemma formatter_key_other_idem:
  assumes "key \<noteq> S ''title''" "key \<noteq> S ''booktitle''" "key \<noteq> S ''pages''"
  shows "formatter_key E key (formatter_key E key v) = formatter_key E key v"
  using assms by (simp add: formatter_key_def re_sub_newlines_idem)


subsection \<open>Page ranges, twice\<close>

lemma re_sub_dashes_at_match:
  assumes "dropWhile isspace (c # cs) = r" "r \<noteq> []" "isdash (hd r)"
  shows "re_sub_dashes (c # cs) = 45 # re_sub_dashes (dropWhile isspace (dropWhile isdash r))"
  using assms by (simp add: Let_def)

lemma re_sub_dashes_no_match:
  assumes "dropWhile isspace (c # cs) = [] \<or> \<not> isdash (hd (dropWhile isspace (c # cs)))"
  shows "re_sub_dashes (c # cs) = c # re_sub_dashes cs"
  using assms by (auto simp: Let_def)

lemma re_sub_dashes_plain:
  "\<not> isspace c \<Longrightarrow> \<not> isdash c \<Longrightarrow> re_sub_dashes (c # cs) = c # re_sub_dashes cs"
  by (rule re_sub_dashes_no_match) simp

lemma re_sub_hyphen_Cons: "re_sub_hyphen (c # cs) = (if c = 45 then 8211 else c) # re_sub_hyphen cs"
  by (simp add: re_sub_hyphen_def)

lemma re_sub_hyphen_Nil [simp]: "re_sub_hyphen [] = []"
  by (simp add: re_sub_hyphen_def)

lemma not_dash_not_hyphen: "\<not> isdash c \<Longrightarrow> c \<noteq> 45"
  by (auto simp: isdash_def)

lemma space_not_hyphen: "isspace c \<Longrightarrow> c \<noteq> 45"
  by (auto simp: isspace_def)

lemma dash_gap_suffix: "suffix xs ys \<Longrightarrow> dash_gap xs \<Longrightarrow> dash_gap ys"
proof -
  assume "suffix xs ys" and g: "dash_gap xs"
  then obtain zs where "ys = zs @ xs" by (auto simp: suffix_def)
  moreover have "dash_gap (zs @ xs)"
    using g by (induction zs) simp_all
  ultimately show ?thesis by simp
qed

lemma after_dash_run:
  "isdash d \<Longrightarrow> \<not> dash_gap (d # xs) \<Longrightarrow>
   dropWhile isspace (dropWhile isdash xs) = [] \<or>
   (\<not> isspace (hd (dropWhile isspace (dropWhile isdash xs))) \<and>
    \<not> isdash (hd (dropWhile isspace (dropWhile isdash xs))))"
proof (induction xs arbitrary: d)
  case Nil
  show ?case by simp
next
  case (Cons x xs)
  show ?case
  proof (cases "isdash x")
    case True
    from Cons.prems(2) have "\<not> dash_gap (x # xs)" by simp
    from Cons.IH [OF True this] True show ?thesis by simp
  next
    case nd: False
    show ?thesis
    proof (cases "isspace x")
      case True
      let ?r = "dropWhile isspace (x # xs)"
      from Cons.prems True have "?r = [] \<or> \<not> isdash (hd ?r)"
        by (auto simp: Let_def)
      moreover have "?r = [] \<or> \<not> isspace (hd ?r)"
        using hd_dropWhile [of isspace "x # xs"] by blast
      ultimately show ?thesis using nd by auto
    next
      case False
      with nd show ?thesis by simp
    qed
  qed
qed

lemma dropWhile_space_sub:
  "dropWhile isspace cs = r \<Longrightarrow> r = [] \<or> \<not> isdash (hd r) \<Longrightarrow>
   dropWhile isspace (re_sub_hyphen (re_sub_dashes cs)) = re_sub_hyphen (re_sub_dashes r)"
proof (induction cs)
  case Nil
  then show ?case by auto
next
  case (Cons x xs)
  show ?case
  proof (cases "isspace x")
    case True
    with Cons.prems have r: "dropWhile isspace xs = r" by simp
    from Cons.prems True have "re_sub_dashes (x # xs) = x # re_sub_dashes xs"
      by (intro re_sub_dashes_no_match) auto
    with True Cons.IH [OF r Cons.prems(2)] show ?thesis
      by (simp add: re_sub_hyphen_Cons space_not_hyphen)
  next
    case False
    with Cons.prems have r: "r = x # xs" and nd: "\<not> isdash x" by auto
    from False nd have "re_sub_dashes (x # xs) = x # re_sub_dashes xs"
      by (rule re_sub_dashes_plain)
    with False nd show ?thesis
      unfolding r by (simp add: re_sub_hyphen_Cons not_dash_not_hyphen)
  qed
qed

lemma plain_head_sub:
  assumes "u = [] \<or> (\<not> isspace (hd u) \<and> \<not> isdash (hd u))"
  shows "re_sub_hyphen (re_sub_dashes u) = [] \<or>
         (\<not> isspace (hd (re_sub_hyphen (re_sub_dashes u))) \<and>
          \<not> isdash (hd (re_sub_hyphen (re_sub_dashes u))))"
proof (cases u)
  case Nil
  then show ?thesis by simp
next
  case (Cons y ys)
  with assms have y: "\<not> isspace y" "\<not> isdash y" by auto
  then show ?thesis
    unfolding Cons by (simp add: re_sub_dashes_plain re_sub_hyphen_Cons not_dash_not_hyphen)
qed

lemma re_sub_dashes_twice:
  "\<not> dash_gap u \<Longrightarrow> re_sub_dashes (re_sub_hyphen (re_sub_dashes u)) = re_sub_dashes u"
proof (induction u rule: length_induct)
  case (1 u)
  note IH = 1(1) and ng = 1(2)
  show ?case
  proof (cases u)
    case Nil
    then show ?thesis by simp
  next
    case (Cons c cs)
    define r where "r = dropWhile isspace (c # cs)"
    show ?thesis
    proof (cases "r \<noteq> [] \<and> isdash (hd r)")
      case True
      define u' where "u' = dropWhile isspace (dropWhile isdash r)"
      let ?t = "re_sub_hyphen (re_sub_dashes u')"
      have fu: "re_sub_dashes u = 45 # re_sub_dashes u'"
        unfolding Cons u'_def using True by (intro re_sub_dashes_at_match) (simp_all add: r_def)
      have sr: "suffix r u"
        unfolding r_def Cons by (rule suffix_dropWhile)
      have "suffix u' (dropWhile isdash r)" "suffix (dropWhile isdash r) r"
        unfolding u'_def by (rule suffix_dropWhile)+
      then have su: "suffix u' u"
        using sr by (meson suffix_order.trans)
      from True obtain d xs where dx: "r = d # xs" "isdash d"
        by (cases r) auto
      have "length (dropWhile isdash r) \<le> length xs"
        unfolding dx using dx(2) by (simp add: length_dropWhile_le)
      moreover have "length u' \<le> length (dropWhile isdash r)"
        unfolding u'_def by (rule length_dropWhile_le)
      moreover have "length r \<le> length u"
        using sr by (rule suffix_length_le)
      ultimately have len: "length u' < length u"
        unfolding dx by simp
      have ngr: "\<not> dash_gap r" using ng dash_gap_suffix [OF sr] by blast
      have ngu: "\<not> dash_gap u'" using ng dash_gap_suffix [OF su] by blast
      from IH len ngu have ih: "re_sub_dashes ?t = re_sub_dashes u'" by blast
      have "u' = [] \<or> (\<not> isspace (hd u') \<and> \<not> isdash (hd u'))"
        using after_dash_run [OF dx(2) ngr [unfolded dx]] dx(2)
        unfolding u'_def dx by simp
      then have t: "?t = [] \<or> (\<not> isspace (hd ?t) \<and> \<not> isdash (hd ?t))"
        by (rule plain_head_sub)
      then have "dropWhile isspace (dropWhile isdash ?t) = ?t"
        by (auto simp: dropWhile_hd)
      then have "re_sub_dashes (8211 # ?t) = 45 # re_sub_dashes ?t"
        using re_sub_dashes_at_match [of 8211 ?t "8211 # ?t"] by simp
      then show ?thesis
        unfolding fu by (simp add: re_sub_hyphen_Cons ih)
    next
      case False
      have fu: "re_sub_dashes u = c # re_sub_dashes cs"
        unfolding Cons using False by (intro re_sub_dashes_no_match) (auto simp: r_def)
      have nd: "\<not> isdash c"
      proof
        assume "isdash c"
        then have "r = c # cs" by (simp add: r_def isdash_not_space)
        with \<open>isdash c\<close> False show False by simp
      qed
      have "\<not> dash_gap cs" using ng unfolding Cons by simp
      with IH have ih: "re_sub_dashes (re_sub_hyphen (re_sub_dashes cs)) = re_sub_dashes cs"
        unfolding Cons by simp
      let ?t = "re_sub_hyphen (re_sub_dashes cs)"
      have nm: "dropWhile isspace (c # ?t) = [] \<or> \<not> isdash (hd (dropWhile isspace (c # ?t)))"
      proof (cases "isspace c")
        case True
        then have r: "dropWhile isspace cs = r" by (simp add: r_def)
        from False have r2: "r = [] \<or> \<not> isdash (hd r)" by blast
        have "r = [] \<or> \<not> isspace (hd r)"
          unfolding r [symmetric] using hd_dropWhile [of isspace cs] by blast
        with r2 have "r = [] \<or> (\<not> isspace (hd r) \<and> \<not> isdash (hd r))" by blast
        from plain_head_sub [OF this] dropWhile_space_sub [OF r r2] True
        show ?thesis by auto
      next
        case False
        with nd show ?thesis by simp
      qed
      have "re_sub_dashes (c # ?t) = c # re_sub_dashes ?t"
        by (rule re_sub_dashes_no_match [OF nm])
      then show ?thesis
        unfolding fu by (simp add: re_sub_hyphen_Cons not_dash_not_hyphen [OF nd] ih)
    qed
  qed
qed


lemma set_re_sub_dashes: "set (re_sub_dashes u) \<subseteq> insert 45 (set u)"
proof (induction u rule: length_induct)
  case (1 u)
  show ?case
  proof (cases u)
    case Nil
    then show ?thesis by simp
  next
    case (Cons c cs)
    define r where "r = dropWhile isspace (c # cs)"
    show ?thesis
    proof (cases "r \<noteq> [] \<and> isdash (hd r)")
      case True
      define u' where "u' = dropWhile isspace (dropWhile isdash r)"
      have fu: "re_sub_dashes u = 45 # re_sub_dashes u'"
        unfolding Cons u'_def using True by (intro re_sub_dashes_at_match) (simp_all add: r_def)
      have "suffix u' (dropWhile isdash r)" "suffix (dropWhile isdash r) r" "suffix r u"
        unfolding u'_def r_def Cons by (rule suffix_dropWhile)+
      then have su: "suffix u' u"
        by (meson suffix_order.trans)
      from True obtain d xs where dx: "r = d # xs" "isdash d"
        by (cases r) auto
      have "length (dropWhile isdash r) \<le> length xs"
        unfolding dx using dx(2) by (simp add: length_dropWhile_le)
      moreover have "length u' \<le> length (dropWhile isdash r)"
        unfolding u'_def by (rule length_dropWhile_le)
      moreover have "length r \<le> length u"
        unfolding r_def Cons by (rule length_dropWhile_le)
      ultimately have "length u' < length u"
        unfolding dx by simp
      with 1 have "set (re_sub_dashes u') \<subseteq> insert 45 (set u')" by blast
      moreover have "set u' \<subseteq> set u" using su by (rule set_mono_suffix)
      ultimately show ?thesis unfolding fu by auto
    next
      case False
      have fu: "re_sub_dashes u = c # re_sub_dashes cs"
        unfolding Cons using False by (intro re_sub_dashes_no_match) (auto simp: r_def)
      from 1 Cons have "set (re_sub_dashes cs) \<subseteq> insert 45 (set cs)" by simp
      then show ?thesis unfolding fu by (auto simp: Cons)
    qed
  qed
qed

lemma newline_notin_pages:
  "10 \<notin> set (re_sub_hyphen (re_sub_dashes (re_sub_newlines v)))"
proof -
  have "set (re_sub_hyphen s) \<subseteq> insert 8211 (set s)" for s
    by (auto simp: re_sub_hyphen_def)
  with set_re_sub_dashes [of "re_sub_newlines v"] newline_notin_re_sub_newlines [of v]
  show ?thesis by fastforce
qed

lemma dropWhile_space_newlines:
  "dropWhile isspace (re_sub_newlines cs) = re_sub_newlines (dropWhile isspace cs)"
proof (induction cs rule: re_sub_newlines.induct)
  case 1
  show ?case by simp
next
  case (2 c cs)
  show ?case
  proof (cases "c = 10")
    case True
    have "dropWhile isspace (dropWhile (\<lambda>x. x = 10) cs) = dropWhile isspace cs"
      by (induction cs) auto
    with 2(1) [OF True] True show ?thesis by simp
  next
    case False
    with 2(2) [OF False] show ?thesis by simp
  qed
qed

lemma re_sub_newlines_Nil_iff [simp]: "re_sub_newlines s = [] \<longleftrightarrow> s = []"
  by (cases s) auto

lemma hd_re_sub_newlines_space: "s \<noteq> [] \<Longrightarrow> isspace (hd (re_sub_newlines s)) \<longleftrightarrow> isspace (hd s)"
  by (cases s) auto

lemma hd_re_sub_newlines_dash: "s \<noteq> [] \<Longrightarrow> isdash (hd (re_sub_newlines s)) \<longleftrightarrow> isdash (hd s)"
  by (cases s) auto

lemma dash_gap_newlines: "dash_gap (re_sub_newlines v) \<Longrightarrow> dash_gap v"
proof (induction v rule: re_sub_newlines.induct)
  case 1
  then show ?case by simp
next
  case (2 c cs)
  show ?case
  proof (cases "c = 10")
    case True
    with 2(3) have "dash_gap (re_sub_newlines (dropWhile (\<lambda>x. x = 10) cs))" by simp
    from 2(1) [OF True this] have "dash_gap (dropWhile (\<lambda>x. x = 10) cs)" .
    with suffix_dropWhile have "dash_gap cs" by (rule dash_gap_suffix)
    then show ?thesis by simp
  next
    case False
    with 2(3) have g: "dash_gap (c # re_sub_newlines cs)" by simp
    show ?thesis
    proof (cases "dash_gap (re_sub_newlines cs)")
      case True
      from 2(2) [OF False this] show ?thesis by simp
    next
      case ng: False
      with g have "isdash c" "re_sub_newlines cs \<noteq> []" "isspace (hd (re_sub_newlines cs))"
        and r: "dropWhile isspace (re_sub_newlines cs) \<noteq> []"
          "isdash (hd (dropWhile isspace (re_sub_newlines cs)))"
        by (auto simp: Let_def)
      then have "cs \<noteq> []" "isspace (hd cs)"
        by (auto simp: hd_re_sub_newlines_space)
      moreover from r have "dropWhile isspace cs \<noteq> []" "isdash (hd (dropWhile isspace cs))"
        unfolding dropWhile_space_newlines by (auto simp: hd_re_sub_newlines_dash)
      ultimately show ?thesis using \<open>isdash c\<close> by (simp add: Let_def)
    qed
  qed
qed

lemma formatter_key_pages_idem:
  assumes "\<not> dash_gap v"
  shows "formatter_key E (S ''pages'') (formatter_key E (S ''pages'') v) = formatter_key E (S ''pages'') v"
proof -
  have "\<not> dash_gap (re_sub_newlines v)"
    using assms dash_gap_newlines by blast
  then show ?thesis
    unfolding formatter_key_pages
    by (simp add: re_sub_newlines_id [OF newline_notin_pages] re_sub_dashes_twice)
qed

subsection \<open>A dash gap is not stable\<close>

lemma length_re_sub_dashes: "length (re_sub_dashes u) \<le> length u"
proof (induction u rule: length_induct)
  case (1 u)
  show ?case
  proof (cases u)
    case Nil
    then show ?thesis by simp
  next
    case (Cons c cs)
    define r where "r = dropWhile isspace (c # cs)"
    show ?thesis
    proof (cases "r \<noteq> [] \<and> isdash (hd r)")
      case True
      define u' where "u' = dropWhile isspace (dropWhile isdash r)"
      have fu: "re_sub_dashes u = 45 # re_sub_dashes u'"
        unfolding Cons u'_def using True by (intro re_sub_dashes_at_match) (simp_all add: r_def)
      from True obtain d xs where dx: "r = d # xs" "isdash d"
        by (cases r) auto
      have "length (dropWhile isdash r) \<le> length xs"
        unfolding dx using dx(2) by (simp add: length_dropWhile_le)
      moreover have "length u' \<le> length (dropWhile isdash r)"
        unfolding u'_def by (rule length_dropWhile_le)
      moreover have "length r \<le> length u"
        unfolding r_def Cons by (rule length_dropWhile_le)
      ultimately have len: "length u' < length u"
        unfolding dx by simp
      with 1 have "length (re_sub_dashes u') \<le> length u'" by blast
      with len show ?thesis unfolding fu by simp
    next
      case False
      have fu: "re_sub_dashes u = c # re_sub_dashes cs"
        unfolding Cons using False by (intro re_sub_dashes_no_match) (auto simp: r_def)
      from 1 Cons have "length (re_sub_dashes cs) \<le> length cs" by simp
      then show ?thesis unfolding fu by (simp add: Cons)
    qed
  qed
qed

lemma dropWhile_same_length: "length (dropWhile P xs) = length xs \<Longrightarrow> dropWhile P xs = xs"
proof -
  assume l: "length (dropWhile P xs) = length xs"
  have "suffix (dropWhile P xs) xs" by (rule suffix_dropWhile)
  then obtain zs where "xs = zs @ dropWhile P xs" by (auto simp: suffix_def)
  with l show ?thesis by (metis append_eq_append_conv append_Nil length_0_conv add_cancel_left_left length_append)
qed

lemma sublist_map_str: "sublist xs ys \<Longrightarrow> sublist (map f xs) (map f ys)"
proof -
  assume "sublist xs ys"
  then obtain ps ss where "ys = ps @ xs @ ss" by (auto simp: sublist_def)
  then have "map f ys = map f ps @ map f xs @ map f ss" by simp
  then show ?thesis unfolding sublist_def by blast
qed

lemma re_sub_dashes_shrinks:
  "sublist [8211, 8211] t \<Longrightarrow> length (re_sub_dashes t) < length t"
proof (induction t rule: length_induct)
  case (1 t)
  note IH = 1(1) and sub = 1(2)
  show ?case
  proof (cases t)
    case Nil
    with sub show ?thesis by simp
  next
    case (Cons c cs)
    define r where "r = dropWhile isspace (c # cs)"
    from sub have sub': "prefix [8211, 8211] (c # cs) \<or> sublist [8211, 8211] cs"
      unfolding Cons by (simp add: sublist_Cons_right)
    show ?thesis
    proof (cases "r \<noteq> [] \<and> isdash (hd r)")
      case True
      define u' where "u' = dropWhile isspace (dropWhile isdash r)"
      have fu: "re_sub_dashes t = 45 # re_sub_dashes u'"
        unfolding Cons u'_def using True by (intro re_sub_dashes_at_match) (simp_all add: r_def)
      from True obtain d xs where dx: "r = d # xs" "isdash d"
        by (cases r) auto
      have l1: "length (dropWhile isdash r) \<le> length xs"
        unfolding dx using dx(2) by (simp add: length_dropWhile_le)
      have l2: "length u' \<le> length (dropWhile isdash r)"
        unfolding u'_def by (rule length_dropWhile_le)
      have l3: "length r \<le> length t"
        unfolding r_def Cons by (rule length_dropWhile_le)
      have l4: "length (re_sub_dashes u') \<le> length u'"
        by (rule length_re_sub_dashes)
      show ?thesis
      proof (cases "Suc (length u') < length t")
        case True
        with l4 show ?thesis unfolding fu by simp
      next
        case False
        with l1 l2 l3 have e: "length r = length t" "length (dropWhile isdash r) = length xs"
          "length u' = length xs"
          unfolding dx by simp_all
        have rt: "r = c # cs"
          unfolding r_def by (rule dropWhile_same_length) (use e(1) in \<open>simp add: r_def Cons\<close>)
        with dx have cx: "c = d" "cs = xs" by simp_all
        have dd: "dropWhile isdash xs = xs"
          by (rule dropWhile_same_length) (use e(2) dx in simp)
        have "u' = dropWhile isspace xs"
          unfolding u'_def dx using dx(2) dd by simp
        with e(3) have uu: "u' = xs"
          using dropWhile_same_length [of isspace xs] by simp
        have "\<not> prefix [8211, 8211] (c # cs)"
        proof
          assume "prefix [8211, 8211] (c # cs)"
          then obtain ys where "cs = 8211 # ys" by (auto simp: prefix_def)
          with cx have "xs = 8211 # ys" by simp
          with dd have "dropWhile isdash (8211 # ys) = 8211 # ys" by simp
          then have "dropWhile isdash ys = 8211 # ys" by simp
          moreover have "length (dropWhile isdash ys) \<le> length ys" by (rule length_dropWhile_le)
          ultimately show False by simp
        qed
        with sub' have "sublist [8211, 8211] cs" by blast
        then have "sublist [8211, 8211] xs" unfolding cx .
        moreover have "length xs < length t" by (simp add: Cons cx)
        ultimately have "length (re_sub_dashes xs) < length xs" using IH by blast
        then show ?thesis unfolding fu uu by (simp add: Cons cx)
      qed
    next
      case False
      have fu: "re_sub_dashes t = c # re_sub_dashes cs"
        unfolding Cons using False by (intro re_sub_dashes_no_match) (auto simp: r_def)
      have nd: "\<not> isdash c"
      proof
        assume "isdash c"
        then have "r = c # cs" by (simp add: r_def isdash_not_space)
        with \<open>isdash c\<close> False show False by simp
      qed
      then have "\<not> prefix [8211, 8211] (c # cs)" by auto
      with sub' have "sublist [8211, 8211] cs" by blast
      with IH have "length (re_sub_dashes cs) < length cs" by (simp add: Cons)
      then show ?thesis unfolding fu by (simp add: Cons)
    qed
  qed
qed

lemma dash_gap_dropWhile:
  "(\<And>x. P x \<Longrightarrow> \<not> isdash x) \<Longrightarrow> dash_gap u \<Longrightarrow> dash_gap (dropWhile P u)"
  by (induction u) auto

lemma gap_after_dash_run:
  "isdash d \<Longrightarrow> dash_gap (d # xs) \<Longrightarrow>
   \<not> dash_gap (dropWhile isspace (dropWhile isdash xs)) \<Longrightarrow>
   dropWhile isspace (dropWhile isdash xs) \<noteq> [] \<and>
   isdash (hd (dropWhile isspace (dropWhile isdash xs)))"
proof (induction xs arbitrary: d)
  case Nil
  then show ?case by simp
next
  case (Cons x xs)
  show ?case
  proof (cases "isdash x")
    case True
    with Cons.prems(2) have "dash_gap (x # xs)"
      by (auto simp: isdash_not_space)
    from Cons.IH [OF True this] Cons.prems(3) True show ?thesis by simp
  next
    case False
    show ?thesis
    proof (cases "dash_gap (x # xs)")
      case True
      then have "dash_gap (dropWhile isspace (x # xs))"
        by (intro dash_gap_dropWhile) (auto simp: isdash_not_space)
      with Cons.prems(3) False show ?thesis by simp
    next
      case ng: False
      with Cons.prems(2) have "isspace x" "dropWhile isspace (x # xs) \<noteq> []"
        "isdash (hd (dropWhile isspace (x # xs)))"
        by (auto simp: Let_def)
      with False show ?thesis by simp
    qed
  qed
qed

lemma dash_gap_doubles: "dash_gap u \<Longrightarrow> sublist [45, 45] (re_sub_dashes u)"
proof (induction u rule: length_induct)
  case (1 u)
  note IH = 1(1) and g = 1(2)
  show ?case
  proof (cases u)
    case Nil
    with g show ?thesis by simp
  next
    case (Cons c cs)
    define r where "r = dropWhile isspace (c # cs)"
    show ?thesis
    proof (cases "r \<noteq> [] \<and> isdash (hd r)")
      case True
      define u' where "u' = dropWhile isspace (dropWhile isdash r)"
      have fu: "re_sub_dashes u = 45 # re_sub_dashes u'"
        unfolding Cons u'_def using True by (intro re_sub_dashes_at_match) (simp_all add: r_def)
      from True obtain d xs where dx: "r = d # xs" "isdash d"
        by (cases r) auto
      have "length (dropWhile isdash r) \<le> length xs"
        unfolding dx using dx(2) by (simp add: length_dropWhile_le)
      moreover have "length u' \<le> length (dropWhile isdash r)"
        unfolding u'_def by (rule length_dropWhile_le)
      moreover have "length r \<le> length u"
        unfolding r_def Cons by (rule length_dropWhile_le)
      ultimately have len: "length u' < length u"
        unfolding dx by simp
      show ?thesis
      proof (cases "dash_gap u'")
        case True
        with IH len have "sublist [45, 45] (re_sub_dashes u')" by blast
        then show ?thesis unfolding fu by (simp add: sublist_Cons_right)
      next
        case False
        have "dash_gap r"
          unfolding r_def Cons [symmetric] using g
          by (intro dash_gap_dropWhile) (auto simp: isdash_not_space)
        from gap_after_dash_run [OF dx(2) this [unfolded dx]] False dx(2)
        have "u' \<noteq> [] \<and> isdash (hd u')"
          unfolding u'_def dx by simp
        then obtain y ys where y: "u' = y # ys" "isdash y" by (cases u') auto
        have "re_sub_dashes (y # ys)
                = 45 # re_sub_dashes (dropWhile isspace (dropWhile isdash (y # ys)))"
          using y(2) by (intro re_sub_dashes_at_match) (simp_all add: isdash_not_space)
        then show ?thesis unfolding fu y by (simp add: sublist_Cons_right)
      qed
    next
      case False
      have fu: "re_sub_dashes u = c # re_sub_dashes cs"
        unfolding Cons using False by (intro re_sub_dashes_no_match) (auto simp: r_def)
      have nd: "\<not> isdash c"
      proof
        assume "isdash c"
        then have "r = c # cs" by (simp add: r_def isdash_not_space)
        with \<open>isdash c\<close> False show False by simp
      qed
      with g have "dash_gap cs" unfolding Cons by simp
      with IH have "sublist [45, 45] (re_sub_dashes cs)" by (simp add: Cons)
      then show ?thesis unfolding fu by (simp add: sublist_Cons_right)
    qed
  qed
qed

lemma newlines_dash_gap: "dash_gap v \<Longrightarrow> dash_gap (re_sub_newlines v)"
proof (induction v rule: re_sub_newlines.induct)
  case 1
  then show ?case by simp
next
  case (2 c cs)
  show ?case
  proof (cases "c = 10")
    case True
    with 2(3) have "dash_gap cs" by simp
    then have "dash_gap (dropWhile (\<lambda>x. x = 10) cs)"
      by (rule dash_gap_dropWhile [rotated]) simp
    from 2(1) [OF True this] True show ?thesis by simp
  next
    case False
    show ?thesis
    proof (cases "dash_gap cs")
      case True
      from 2(2) [OF False this] False show ?thesis by simp
    next
      case ng: False
      with 2(3) have c: "isdash c" and cs: "cs \<noteq> []" "isspace (hd cs)"
        and r: "dropWhile isspace cs \<noteq> []" "isdash (hd (dropWhile isspace cs))"
        by (auto simp: Let_def)
      from r have "dropWhile isspace (re_sub_newlines cs) \<noteq> []"
        "isdash (hd (dropWhile isspace (re_sub_newlines cs)))"
        unfolding dropWhile_space_newlines by (simp_all add: hd_re_sub_newlines_dash)
      with c cs False show ?thesis
        by (simp add: Let_def hd_re_sub_newlines_space)
    qed
  qed
qed

lemma formatter_key_pages_gap:
  assumes "dash_gap v"
  shows "formatter_key E (S ''pages'') (formatter_key E (S ''pages'') v) \<noteq> formatter_key E (S ''pages'') v"
proof -
  let ?F = "re_sub_hyphen (re_sub_dashes (re_sub_newlines v))"
  have "sublist [45, 45] (re_sub_dashes (re_sub_newlines v))"
    using assms by (intro dash_gap_doubles newlines_dash_gap)
  then have "sublist (re_sub_hyphen [45, 45]) ?F"
    unfolding re_sub_hyphen_def by (rule sublist_map_str)
  then have "sublist [8211, 8211] ?F" by (simp add: re_sub_hyphen_def)
  then have "length (re_sub_dashes ?F) < length ?F" by (rule re_sub_dashes_shrinks)
  then have "length (re_sub_hyphen (re_sub_dashes ?F)) \<noteq> length ?F"
    by (simp add: re_sub_hyphen_def)
  then have "re_sub_hyphen (re_sub_dashes ?F) \<noteq> ?F" by auto
  then show ?thesis
    unfolding formatter_key_pages by (simp add: re_sub_newlines_id [OF newline_notin_pages])
qed

text \<open>
  C5 (amended). A second application of the normalizer changes nothing in a title, a
  booktitle or any other field but \<open>pages\<close> (so the protection markers are stable),
  and it changes nothing in a \<open>pages\<close> value exactly when the value has no dash gap:
  the normalizer is idempotent on the records whose \<open>pages\<close> value has none, and on
  no other record.
\<close>

theorem formatter_idempotent:
  "(formatter_key E key (formatter_key E key v) = formatter_key E key v
      \<longleftrightarrow> key \<noteq> S ''pages'' \<or> \<not> dash_gap v) \<and>
   (formatter E (formatter E e) = formatter E e
      \<longleftrightarrow> list_all (\<lambda>(key, v). key = S ''pages'' \<longrightarrow> \<not> dash_gap v) e)"
proof -
  have k: "formatter_key E key (formatter_key E key v) = formatter_key E key v
             \<longleftrightarrow> key \<noteq> S ''pages'' \<or> \<not> dash_gap v" for key v
  proof (cases "key = S ''pages''")
    case True
    then show ?thesis
      using formatter_key_pages_idem [of v E] formatter_key_pages_gap [of v E] by auto
  next
    case False
    then show ?thesis
      by (cases "key = S ''title'' \<or> key = S ''booktitle''")
         (simp_all add: formatter_key_title_idem formatter_key_other_idem)
  qed
  have "formatter E (formatter E e) = formatter E e
          \<longleftrightarrow> list_all (\<lambda>(key, v). key = S ''pages'' \<longrightarrow> \<not> dash_gap v) e"
    by (induction e) (auto simp: formatter_def k)
  with k show ?thesis by blast
qed

lemma ex_paged_ok: "list_all (\<lambda>(key, v). key = S ''pages'' \<longrightarrow> \<not> dash_gap v) ex_paged"
  by (simp add: ex_paged_def S_Nil S_Cons isdash_def isspace_def)

theorem formatter_idempotent_witness:
  "list_all (\<lambda>(key, v). key = S ''pages'' \<longrightarrow> \<not> dash_gap v) ex_paged \<and>
   formatter (ascii_env []) (formatter (ascii_env []) ex_paged) = formatter (ascii_env []) ex_paged \<and>
   \<not> dash_gap (S ''12 - 34'') \<and>
   formatter_key (ascii_env []) (S ''pages'')
     (formatter_key (ascii_env []) (S ''pages'') (S ''12 - 34''))
     = formatter_key (ascii_env []) (S ''pages'') (S ''12 - 34'')"
proof -
  have g: "\<not> dash_gap (S ''12 - 34'')"
    by (simp add: S_Nil S_Cons isdash_def isspace_def)
  from formatter_idempotent [of "ascii_env []" "S ''pages''" "S ''12 - 34''" ex_paged] ex_paged_ok g
  show ?thesis by blast
qed

text \<open>The claim as the specification states it fails: the page range \<open>1 - - 2\<close>
  becomes two en-dashes between \<open>1\<close> and \<open>2\<close>, and then one.\<close>

theorem formatter_idempotent_counterexample:
  "map_of ex_gap (S ''pages'') = Some (S ''1 - - 2'') \<and>
   map_of (formatter (ascii_env []) ex_gap) (S ''pages'') = Some (S ''1'' @ [8211, 8211] @ S ''2'') \<and>
   map_of (formatter (ascii_env []) (formatter (ascii_env []) ex_gap)) (S ''pages'')
     = Some (S ''1'' @ [8211] @ S ''2'') \<and>
   formatter (ascii_env []) (formatter (ascii_env []) ex_gap) \<noteq> formatter (ascii_env []) ex_gap"
  by (simp add: formatter_def formatter_key_def ex_gap_def re_sub_hyphen_def S_Nil S_Cons Let_def
        isspace_def isdash_def)

section \<open>The rule for page ranges, for every value\<close>

lemma re_sub_newlines_append_hd:
  "ys = [] \<or> hd ys \<noteq> 10 \<Longrightarrow> re_sub_newlines (xs @ ys) = re_sub_newlines xs @ re_sub_newlines ys"
proof (induction xs rule: re_sub_newlines.induct)
  case 1
  show ?case by simp
next
  case (2 c cs)
  show ?case
  proof (cases "c = 10")
    case True
    have dw: "dropWhile (\<lambda>x. x = 10) (cs @ ys) = dropWhile (\<lambda>x. x = 10) cs @ ys"
      using 2(3) by (induction cs) (auto simp: dropWhile_hd)
    from 2(1) [OF True 2(3)] True dw show ?thesis by simp
  next
    case False
    from 2(2) [OF False 2(3)] False show ?thesis by simp
  qed
qed

lemma re_sub_newlines_snoc:
  "x \<noteq> 10 \<Longrightarrow> re_sub_newlines (xs @ x # ys) = re_sub_newlines xs @ x # re_sub_newlines ys"
  using re_sub_newlines_append_hd [of "x # ys" xs] by simp

lemma set_re_sub_newlines: "set (re_sub_newlines s) \<subseteq> insert 32 (set s)"
proof (induction s rule: re_sub_newlines.induct)
  case 1
  show ?case by simp
next
  case (2 c cs)
  have "set (dropWhile (\<lambda>x. x = 10) cs) \<subseteq> set cs"
    by (rule set_dropWhileD [THEN subsetI])
  with 2 show ?case by auto
qed

lemma re_sub_newlines_spaces:
  "list_all isspace ws \<Longrightarrow> list_all isspace (re_sub_newlines ws)"
  using set_re_sub_newlines [of ws] by (auto simp: list_all_iff)

lemma re_sub_newlines_run:
  "rest = [] \<or> hd rest \<noteq> 10 \<Longrightarrow>
   re_sub_newlines (replicate (Suc n) 10 @ rest) = 32 # re_sub_newlines rest"
proof -
  assume r: "rest = [] \<or> hd rest \<noteq> 10"
  have "dropWhile (\<lambda>x. x = 10) (replicate n 10 @ rest) = rest"
    using r by (induction n) (auto simp: dropWhile_hd)
  then show ?thesis by simp
qed

lemma re_sub_dashes_prefix:
  assumes "list_all (\<lambda>c. \<not> isdash c) p" and "p = [] \<or> \<not> isspace (last p)"
  shows "re_sub_dashes (p @ s) = p @ re_sub_dashes s"
  using assms
proof (induction p)
  case Nil
  show ?case by simp
next
  case (Cons c p)
  from Cons.prems have nd: "\<forall>x\<in>set (c # p). \<not> isdash x" by (simp add: list_all_iff)
  from Cons.prems(2) have l: "\<not> isspace (last (c # p))" by simp
  have ex: "\<exists>x\<in>set (c # p). \<not> isspace x"
    using l last_in_set [of "c # p"] by blast
  then obtain x where x: "x \<in> set (c # p)" "\<not> isspace x" by blast
  have dw: "dropWhile isspace ((c # p) @ s) = dropWhile isspace (c # p) @ s"
    using dropWhile_append1 [of x "c # p" isspace s] x by blast
  have ne: "dropWhile isspace (c # p) \<noteq> []"
    using ex unfolding dropWhile_eq_Nil_conv by blast
  then have "hd (dropWhile isspace (c # p)) \<in> set (c # p)"
    using set_dropWhileD [of "hd (dropWhile isspace (c # p))" isspace "c # p"] by simp
  with nd have "\<not> isdash (hd (dropWhile isspace (c # p)))" by blast
  with ne dw have nm: "\<not> isdash (hd (dropWhile isspace (c # p @ s)))" by simp
  have step: "re_sub_dashes (c # p @ s) = c # re_sub_dashes (p @ s)"
    by (rule re_sub_dashes_no_match) (use nm in simp)
  have "p = [] \<or> \<not> isspace (last p)"
    using Cons.prems(2) by (cases p) auto
  moreover from Cons.prems(1) have "list_all (\<lambda>c. \<not> isdash c) p" by simp
  ultimately have "re_sub_dashes (p @ s) = p @ re_sub_dashes s" by (rule Cons.IH [rotated])
  with step show ?case by simp
qed

lemma re_sub_dashes_stretch:
  assumes "list_all isspace ws1" "ds \<noteq> []" "list_all isdash ds" "list_all isspace ws2"
    and "rest = [] \<or> (\<not> isspace (hd rest) \<and> (ws2 = [] \<longrightarrow> \<not> isdash (hd rest)))"
  shows "re_sub_dashes (ws1 @ ds @ ws2 @ rest) = 45 # re_sub_dashes rest"
proof -
  have r: "dropWhile isspace (ws1 @ ds @ ws2 @ rest) = ds @ ws2 @ rest"
    using assms(1,2,3) by (induction ws1) (auto simp: neq_Nil_conv isdash_not_space)
  have rs: "rest = [] \<or> \<not> isspace (hd rest)"
    using assms(5) by auto
  have d2: "dropWhile isspace (ws2 @ rest) = rest"
    using assms(4) rs by (induction ws2) (auto simp: dropWhile_hd)
  have "dropWhile isdash (ws2 @ rest) = ws2 @ rest"
    using assms(4,5) by (cases ws2) (auto simp: dropWhile_hd isdash_not_space)
  then have d1: "dropWhile isdash (ds @ ws2 @ rest) = ws2 @ rest"
    using assms(3) by (induction ds) auto
  obtain c cs where u: "ws1 @ ds @ ws2 @ rest = c # cs"
    using assms(2) by (cases "ws1 @ ds @ ws2 @ rest") auto
  have hd: "isdash (hd (ds @ ws2 @ rest))" "ds @ ws2 @ rest \<noteq> []"
    using assms(2,3) by (cases ds; simp)+
  show ?thesis
    unfolding u using r d1 d2 hd unfolding u by (simp add: Let_def)
qed

lemma re_sub_dashes_none: "list_all (\<lambda>c. \<not> isdash c) s \<Longrightarrow> re_sub_dashes s = s"
proof (induction s)
  case Nil
  show ?case by simp
next
  case (Cons c s)
  have "dropWhile isspace (c # s) = [] \<or> \<not> isdash (hd (dropWhile isspace (c # s)))"
  proof (cases "dropWhile isspace (c # s) = []")
    case True
    then show ?thesis by simp
  next
    case False
    then have "hd (dropWhile isspace (c # s)) \<in> set (c # s)"
      using set_dropWhileD [of "hd (dropWhile isspace (c # s))" isspace "c # s"] by simp
    with Cons.prems show ?thesis by (auto simp: list_all_iff)
  qed
  from re_sub_dashes_no_match [OF this] Cons show ?case by simp
qed


lemma re_sub_newlines_append_last:
  "xs = [] \<or> last xs \<noteq> 10 \<Longrightarrow> re_sub_newlines (xs @ ys) = re_sub_newlines xs @ re_sub_newlines ys"
proof (cases "xs = []")
  case True
  then show ?thesis by simp
next
  case False
  assume "xs = [] \<or> last xs \<noteq> 10"
  with False have l: "last xs \<noteq> 10" by simp
  from False have xs: "xs = butlast xs @ [last xs]" by simp
  have "re_sub_newlines (xs @ ys) = re_sub_newlines (butlast xs @ last xs # ys)"
    by (subst xs) simp
  also have "\<dots> = re_sub_newlines (butlast xs) @ last xs # re_sub_newlines ys"
    by (rule re_sub_newlines_snoc [OF l])
  also have "re_sub_newlines xs = re_sub_newlines (butlast xs) @ [last xs]"
    using re_sub_newlines_snoc [OF l, of "butlast xs" "[]"] xs by simp
  then have "re_sub_newlines (butlast xs) @ last xs # re_sub_newlines ys
               = re_sub_newlines xs @ re_sub_newlines ys"
    by simp
  finally show ?thesis .
qed

lemma last_re_sub_newlines:
  "xs \<noteq> [] \<Longrightarrow> last xs \<noteq> 10 \<Longrightarrow> last (re_sub_newlines xs) = last xs"
proof -
  assume ne: "xs \<noteq> []" and l: "last xs \<noteq> 10"
  from ne have xs: "xs = butlast xs @ [last xs]" by simp
  have "re_sub_newlines xs = re_sub_newlines (butlast xs) @ [last xs]"
    using re_sub_newlines_snoc [OF l, of "butlast xs" "[]"] xs by simp
  then show ?thesis by simp
qed

lemma pages_stretch:
  assumes a: "list_all (\<lambda>c. \<not> isdash c) a" and al: "a = [] \<or> \<not> isspace (last a)"
    and ws1: "list_all isspace ws1" and ds: "ds \<noteq> []" "list_all isdash ds"
    and ws2: "list_all isspace ws2"
    and rest: "rest = [] \<or> (\<not> isspace (hd rest) \<and> (ws2 = [] \<longrightarrow> \<not> isdash (hd rest)))"
  shows "formatter_key E (S ''pages'') (a @ ws1 @ ds @ ws2 @ rest)
           = re_sub_newlines a @ [8211] @ formatter_key E (S ''pages'') rest"
proof -
  let ?p = "re_sub_newlines a"
  have al10: "a = [] \<or> last a \<noteq> 10"
    using al by auto
  have d10: "10 \<notin> set ds"
    using ds(2) by (auto simp: list_all_iff)
  have dh: "ds @ ws2 @ rest = [] \<or> hd (ds @ ws2 @ rest) \<noteq> 10"
    using ds by (cases ds) auto
  have rh: "rest = [] \<or> hd rest \<noteq> 10"
    using rest by auto
  have nl: "re_sub_newlines (a @ ws1 @ ds @ ws2 @ rest)
              = ?p @ re_sub_newlines ws1 @ ds @ re_sub_newlines ws2 @ re_sub_newlines rest"
    by (simp add: re_sub_newlines_append_last [OF al10] re_sub_newlines_append_hd [OF dh]
          re_sub_newlines_append_clean [OF d10] re_sub_newlines_append_hd [OF rh])
  have pa: "set ?p \<subseteq> insert 32 (set a)"
    by (rule set_re_sub_newlines)
  have p1: "list_all (\<lambda>c. \<not> isdash c) ?p"
    using pa a by (auto simp: list_all_iff)
  have p2: "?p = [] \<or> \<not> isspace (last ?p)"
  proof (cases "a = []")
    case True
    then show ?thesis by simp
  next
    case False
    with al al10 have "\<not> isspace (last a)" "last a \<noteq> 10" by simp_all
    with last_re_sub_newlines [OF False] show ?thesis by simp
  qed
  have p45: "45 \<notin> set ?p"
    using p1 by (auto simp: list_all_iff)
  have r': "re_sub_newlines rest = [] \<or>
      (\<not> isspace (hd (re_sub_newlines rest)) \<and>
       (re_sub_newlines ws2 = [] \<longrightarrow> \<not> isdash (hd (re_sub_newlines rest))))"
  proof (cases "rest = []")
    case True
    then show ?thesis by simp
  next
    case False
    with rest show ?thesis
      by (simp add: hd_re_sub_newlines_space hd_re_sub_newlines_dash)
  qed
  have "re_sub_dashes (?p @ re_sub_newlines ws1 @ ds @ re_sub_newlines ws2 @ re_sub_newlines rest)
          = ?p @ 45 # re_sub_dashes (re_sub_newlines rest)"
    by (simp add: re_sub_dashes_prefix [OF p1 p2]
          re_sub_dashes_stretch [OF re_sub_newlines_spaces [OF ws1] ds re_sub_newlines_spaces [OF ws2] r'])
  then show ?thesis
    unfolding formatter_key_pages nl
    by (simp add: re_sub_hyphen_clean [OF p45]) (simp add: re_sub_hyphen_def)
qed

lemma pages_no_dash:
  assumes "list_all (\<lambda>c. \<not> isdash c) v"
  shows "formatter_key E (S ''pages'') v = re_sub_newlines v"
proof -
  have "set (re_sub_newlines v) \<subseteq> insert 32 (set v)"
    by (rule set_re_sub_newlines)
  with assms have nd: "list_all (\<lambda>c. \<not> isdash c) (re_sub_newlines v)"
    by (auto simp: list_all_iff)
  then have "45 \<notin> set (re_sub_newlines v)"
    by (auto simp: list_all_iff)
  then show ?thesis
    unfolding formatter_key_pages
    by (simp add: re_sub_dashes_none [OF nd] re_sub_hyphen_clean)
qed

lemma pages_decompose:
  assumes "\<exists>c\<in>set v. isdash c"
  shows "\<exists>a ws1 ds ws2 rest.
           v = a @ ws1 @ ds @ ws2 @ rest \<and>
           list_all (\<lambda>c. \<not> isdash c) a \<and> (a = [] \<or> \<not> isspace (last a)) \<and>
           list_all isspace ws1 \<and> ds \<noteq> [] \<and> list_all isdash ds \<and> list_all isspace ws2 \<and>
           (rest = [] \<or> (\<not> isspace (hd rest) \<and> (ws2 = [] \<longrightarrow> \<not> isdash (hd rest))))"
proof -
  define p where "p = takeWhile (\<lambda>c. \<not> isdash c) v"
  define r where "r = dropWhile (\<lambda>c. \<not> isdash c) v"
  define a where "a = rev (dropWhile isspace (rev p))"
  define ws1 where "ws1 = rev (takeWhile isspace (rev p))"
  define ds where "ds = takeWhile isdash r"
  define r' where "r' = dropWhile isdash r"
  define ws2 where "ws2 = takeWhile isspace r'"
  define rest where "rest = dropWhile isspace r'"
  have v: "v = p @ r" by (simp add: p_def r_def)
  have "a @ ws1 = rev (takeWhile isspace (rev p) @ dropWhile isspace (rev p))"
    unfolding a_def ws1_def by (simp only: rev_append)
  then have p: "p = a @ ws1" by (simp only: takeWhile_dropWhile_id rev_rev_ident)
  have r: "r = ds @ ws2 @ rest" by (simp add: ds_def r'_def ws2_def rest_def)
  have pnd: "\<forall>c\<in>set p. \<not> isdash c"
    unfolding p_def by (auto dest: set_takeWhileD)
  have "set a \<subseteq> set p" unfolding p by simp
  with pnd have c1: "list_all (\<lambda>c. \<not> isdash c) a" by (auto simp: list_all_iff)
  have c2: "a = [] \<or> \<not> isspace (last a)"
  proof (cases "a = []")
    case True
    then show ?thesis by simp
  next
    case False
    then have ne: "dropWhile isspace (rev p) \<noteq> []" by (simp add: a_def)
    have "last a = hd (dropWhile isspace (rev p))"
      unfolding a_def using ne by (simp add: last_rev)
    with hd_dropWhile [OF ne] show ?thesis by simp
  qed
  have c3: "list_all isspace ws1"
    unfolding ws1_def by (auto simp: list_all_iff dest: set_takeWhileD)
  have rne: "r \<noteq> []"
    unfolding r_def using assms by (simp add: dropWhile_eq_Nil_conv)
  have "isdash (hd r)"
    using hd_dropWhile [of "\<lambda>c. \<not> isdash c" v] rne unfolding r_def by simp
  with rne have c4: "ds \<noteq> []"
    unfolding ds_def by (cases r) auto
  have c5: "list_all isdash ds"
    unfolding ds_def by (auto simp: list_all_iff dest: set_takeWhileD)
  have c6: "list_all isspace ws2"
    unfolding ws2_def by (auto simp: list_all_iff dest: set_takeWhileD)
  have c7: "rest = [] \<or> (\<not> isspace (hd rest) \<and> (ws2 = [] \<longrightarrow> \<not> isdash (hd rest)))"
  proof (cases "rest = []")
    case True
    then show ?thesis by simp
  next
    case False
    then have s: "\<not> isspace (hd rest)"
      unfolding rest_def by (rule hd_dropWhile)
    have "\<not> isdash (hd rest)" if "ws2 = []"
    proof -
      from that have "rest = r'"
        unfolding rest_def ws2_def by (cases r') (auto split: if_splits)
      moreover from False this have "r' \<noteq> []" by simp
      then have "\<not> isdash (hd r')" unfolding r'_def by (rule hd_dropWhile)
      ultimately show ?thesis by simp
    qed
    with s show ?thesis by simp
  qed
  have "v = a @ ws1 @ ds @ ws2 @ rest"
    unfolding v p r by simp
  with c1 c2 c3 c4 c5 c6 c7 show ?thesis by blast
qed


lemma map_of_formatter:
  "map_of (formatter E e) k = map_option (formatter_key E k) (map_of e k)"
  by (induction e) (auto simp: formatter_def)

text \<open>
  C6 (amended). The \<open>pages\<close> branch of the normalizer, for every value: a value
  without a dash is only cleared of its newlines. A value with a dash splits, in the
  sense of \<open>dash_stretch\<close>, at its first stretch of dashes: the text before it is
  cleared of its newlines, the stretch (the whitespace before the dashes, the
  adjacent dashes, the whitespace after them) becomes one en-dash, and the rest is
  normalized in the same way. Dashes that whitespace separates are therefore in
  different stretches and each stretch leaves its own en-dash. No hyphen is left.
  Clearing the newlines turns every run of newlines into one space and changes
  nothing else. The inputs \<open>12-34\<close>, \<open>12 - 34\<close> and \<open>12\<close>, en-dash, \<open>34\<close> all give
  \<open>12\<close>, en-dash, \<open>34\<close>.
\<close>

theorem formatter_pages:
  "map_of (formatter E e) (S ''pages'')
     = map_option (formatter_key E (S ''pages'')) (map_of e (S ''pages'')) \<and>
   (list_all (\<lambda>c. \<not> isdash c) v \<longrightarrow> formatter_key E (S ''pages'') v = re_sub_newlines v) \<and>
   ((\<exists>c\<in>set v. isdash c) \<longrightarrow>
      (\<exists>a ws1 ds ws2 rest. v = a @ ws1 @ ds @ ws2 @ rest \<and> dash_stretch a ws1 ds ws2 rest)) \<and>
   (dash_stretch a ws1 ds ws2 rest \<longrightarrow>
      formatter_key E (S ''pages'') (a @ ws1 @ ds @ ws2 @ rest)
        = re_sub_newlines a @ [8211] @ formatter_key E (S ''pages'') rest) \<and>
   45 \<notin> set (formatter_key E (S ''pages'') v) \<and>
   (10 \<notin> set a \<longrightarrow> re_sub_newlines a = a) \<and>
   (10 \<notin> set a \<and> (rest = [] \<or> hd rest \<noteq> 10) \<longrightarrow>
      re_sub_newlines (a @ replicate (Suc n) 10 @ rest) = a @ [32] @ re_sub_newlines rest) \<and>
   formatter_key E (S ''pages'') (S ''12-34'') = S ''12'' @ [8211] @ S ''34'' \<and>
   formatter_key E (S ''pages'') (S ''12 - 34'') = S ''12'' @ [8211] @ S ''34'' \<and>
   formatter_key E (S ''pages'') (S ''12'' @ [8211] @ S ''34'') = S ''12'' @ [8211] @ S ''34''"
proof (intro conjI impI)
  show "map_of (formatter E e) (S ''pages'')
     = map_option (formatter_key E (S ''pages'')) (map_of e (S ''pages''))"
    by (rule map_of_formatter)
  show "formatter_key E (S ''pages'') v = re_sub_newlines v" if "list_all (\<lambda>c. \<not> isdash c) v"
    by (rule pages_no_dash [OF that])
  show "\<exists>a ws1 ds ws2 rest. v = a @ ws1 @ ds @ ws2 @ rest \<and> dash_stretch a ws1 ds ws2 rest"
    if "\<exists>c\<in>set v. isdash c"
    unfolding dash_stretch_def by (rule pages_decompose [OF that])
  show "formatter_key E (S ''pages'') (a @ ws1 @ ds @ ws2 @ rest)
        = re_sub_newlines a @ [8211] @ formatter_key E (S ''pages'') rest"
    if "dash_stretch a ws1 ds ws2 rest"
    using that unfolding dash_stretch_def by (intro pages_stretch) simp_all
  show "45 \<notin> set (formatter_key E (S ''pages'') v)"
    unfolding formatter_key_pages by (rule hyphen_notin_re_sub_hyphen)
  show "re_sub_newlines a = a" if "10 \<notin> set a"
    by (rule re_sub_newlines_id [OF that])
  show "re_sub_newlines (a @ replicate (Suc n) 10 @ rest) = a @ [32] @ re_sub_newlines rest"
    if "10 \<notin> set a \<and> (rest = [] \<or> hd rest \<noteq> 10)"
  proof -
    from that have a: "10 \<notin> set a" and r: "rest = [] \<or> hd rest \<noteq> 10" by simp_all
    show ?thesis
      unfolding re_sub_newlines_append_clean [OF a] re_sub_newlines_run [OF r] by simp
  qed
  show "formatter_key E (S ''pages'') (S ''12-34'') = S ''12'' @ [8211] @ S ''34''"
    unfolding formatter_key_pages
    by (simp add: re_sub_hyphen_def S_Nil S_Cons Let_def isspace_def isdash_def)
  show "formatter_key E (S ''pages'') (S ''12 - 34'') = S ''12'' @ [8211] @ S ''34''"
    unfolding formatter_key_pages
    by (simp add: re_sub_hyphen_def S_Nil S_Cons Let_def isspace_def isdash_def)
  show "formatter_key E (S ''pages'') (S ''12'' @ [8211] @ S ''34'') = S ''12'' @ [8211] @ S ''34''"
    unfolding formatter_key_pages
    by (simp add: re_sub_hyphen_def S_Nil S_Cons Let_def isspace_def isdash_def)
qed

theorem formatter_pages_witness:
  "list_all (\<lambda>c. \<not> isdash c) (S ''12'') \<and>
   formatter_key (ascii_env []) (S ''pages'') (S ''12'') = S ''12'' \<and>
   (\<exists>c\<in>set (S ''1 - - 2''). isdash c) \<and>
   (\<exists>a ws1 ds ws2 rest. S ''1 - - 2'' = a @ ws1 @ ds @ ws2 @ rest \<and> dash_stretch a ws1 ds ws2 rest) \<and>
   dash_stretch (S ''pp. 12'') [32, 10] (S ''-'' @ [8211]) [] (S ''34'') \<and>
   formatter_key (ascii_env []) (S ''pages'') (S ''pp. 12'' @ [32, 10] @ (S ''-'' @ [8211]) @ [] @ S ''34'')
     = S ''pp. 12'' @ [8211] @ S ''34'' \<and>
   dash_stretch (S ''1'') (S '' '') (S ''-'') (S '' '') (S ''- 2'') \<and>
   dash_stretch [] [] (S ''-'') (S '' '') (S ''2'') \<and>
   formatter_key (ascii_env []) (S ''pages'') (S ''1'' @ S '' '' @ S ''-'' @ S '' '' @ S ''- 2'')
     = S ''1'' @ [8211] @ [8211] @ S ''2'' \<and>
   10 \<notin> set (S ''12'') \<and> hd (S ''34'') \<noteq> 10 \<and>
   re_sub_newlines (S ''12'' @ replicate (Suc 1) 10 @ S ''34'') = S ''12'' @ [32] @ S ''34''"
proof -
  note T = formatter_pages [where E = "ascii_env []"]
  note nodash = T [THEN conjunct2, THEN conjunct1, THEN mp]
  note decomp = T [THEN conjunct2, THEN conjunct2, THEN conjunct1, THEN mp]
  note stretch = T [THEN conjunct2, THEN conjunct2, THEN conjunct2, THEN conjunct1, THEN mp]
  note nlid = T [THEN conjunct2, THEN conjunct2, THEN conjunct2, THEN conjunct2, THEN conjunct2,
      THEN conjunct1, THEN mp]
  note nlrun = T [THEN conjunct2, THEN conjunct2, THEN conjunct2, THEN conjunct2, THEN conjunct2,
      THEN conjunct2, THEN conjunct1, THEN mp]
  have n12: "list_all (\<lambda>c. \<not> isdash c) (S ''12'')"
    and n34: "list_all (\<lambda>c. \<not> isdash c) (S ''34'')"
    and n2: "list_all (\<lambda>c. \<not> isdash c) (S ''2'')"
    by (simp_all add: S_Nil S_Cons isdash_def)
  have l12: "10 \<notin> set (S ''12'')" and l34: "10 \<notin> set (S ''34'')" and l2: "10 \<notin> set (S ''2'')"
    and lpp: "10 \<notin> set (S ''pp. 12'')" and l1: "10 \<notin> set (S ''1'')"
    by (simp_all add: S_Nil S_Cons)
  have f12: "formatter_key (ascii_env []) (S ''pages'') (S ''12'') = S ''12''"
    using nodash [OF n12] nlid [OF l12] by simp
  have f34: "formatter_key (ascii_env []) (S ''pages'') (S ''34'') = S ''34''"
    using nodash [OF n34] nlid [OF l34] by simp
  have f2: "formatter_key (ascii_env []) (S ''pages'') (S ''2'') = S ''2''"
    using nodash [OF n2] nlid [OF l2] by simp
  have d: "\<exists>c\<in>set (S ''1 - - 2''). isdash c"
    by (simp add: S_Nil S_Cons isdash_def)
  have s1: "dash_stretch (S ''pp. 12'') [32, 10] (S ''-'' @ [8211]) [] (S ''34'')"
    by (simp add: dash_stretch_def S_Nil S_Cons isdash_def isspace_def)
  have s2: "dash_stretch (S ''1'') (S '' '') (S ''-'') (S '' '') (S ''- 2'')"
    by (simp add: dash_stretch_def S_Nil S_Cons isdash_def isspace_def)
  have s3: "dash_stretch [] [] (S ''-'') (S '' '') (S ''2'')"
    by (simp add: dash_stretch_def S_Nil S_Cons isdash_def isspace_def)
  have r1: "formatter_key (ascii_env []) (S ''pages'') (S ''pp. 12'' @ [32, 10] @ (S ''-'' @ [8211]) @ [] @ S ''34'')
     = S ''pp. 12'' @ [8211] @ S ''34''"
    unfolding stretch [OF s1] nlid [OF lpp] f34 ..
  have "S ''- 2'' = [] @ [] @ S ''-'' @ S '' '' @ S ''2''"
    by (simp add: S_Nil S_Cons)
  then have g: "formatter_key (ascii_env []) (S ''pages'') (S ''- 2'') = [8211] @ S ''2''"
    using stretch [OF s3] f2 by simp
  have r2: "formatter_key (ascii_env []) (S ''pages'') (S ''1'' @ S '' '' @ S ''-'' @ S '' '' @ S ''- 2'')
     = S ''1'' @ [8211] @ [8211] @ S ''2''"
    unfolding stretch [OF s2] nlid [OF l1] g ..
  have h34: "hd (S ''34'') \<noteq> 10"
    by (simp add: S_Nil S_Cons)
  then have "10 \<notin> set (S ''12'') \<and> (S ''34'' = [] \<or> hd (S ''34'') \<noteq> 10)"
    using l12 by simp
  from nlrun [OF this, of 1] nlid [OF l34]
  have r3: "re_sub_newlines (S ''12'' @ replicate (Suc 1) 10 @ S ''34'') = S ''12'' @ [32] @ S ''34''"
    by simp
  show ?thesis
    apply (intro conjI)
    apply (fact n12)
    apply (fact f12)
    apply (fact d)
    apply (fact decomp [OF d])
    apply (fact s1)
    apply (fact r1)
    apply (fact s2)
    apply (fact s3)
    apply (fact r2)
    apply (fact l12)
    apply (fact h34)
    apply (fact r3)
    done
qed

text \<open>The claim as the specification states it fails: in \<open>1 - - 2\<close> the two hyphens,
  each padded with whitespace, form one run of whitespace-padded hyphens, and the run
  is not collapsed into a single hyphen: two en-dashes are left, where adjacent
  hyphens, as in \<open>1--2\<close>, leave one.\<close>

theorem formatter_pages_counterexample:
  "formatter_key (ascii_env []) (S ''pages'') (S ''1 - - 2'') = S ''1'' @ [8211, 8211] @ S ''2'' \<and>
   formatter_key (ascii_env []) (S ''pages'') (S ''1 - - 2'') \<noteq> S ''1'' @ [8211] @ S ''2'' \<and>
   formatter_key (ascii_env []) (S ''pages'') (S ''1--2'') = S ''1'' @ [8211] @ S ''2''"
  unfolding formatter_key_pages
  by (simp add: re_sub_hyphen_def S_Nil S_Cons Let_def isspace_def isdash_def)

end
